theory Spec2Isabelle
  imports Main
begin

section \<open>JavaScript values used by the service\<close>

text \<open>
  A thrown value. \<open>instanceof_Error\<close> is the test \<^verbatim>\<open>err instanceof Error\<close>,
  \<open>err_code\<close> and \<open>err_message\<close> are the properties \<^verbatim>\<open>err?.code\<close> and
  \<^verbatim>\<open>err?.message\<close> (\<open>None\<close> when undefined).
\<close>

datatype js_error =
  JsError (instanceof_Error: bool) (err_code: "int option") (err_message: "string option")

text \<open>
  How an asynchronous call ends: its promise is resolved with a value, it is rejected with
  an error (the call throws), or a stream emits an error event that has no listener, which
  terminates the Node process: the call never settles and nothing runs after it.
\<close>

datatype 'a completion = Resolved 'a | Rejected js_error | Uncaught js_error

definition settles :: "'a completion \<Rightarrow> bool" where
  "settles r = (case r of Resolved _ \<Rightarrow> True | Rejected _ \<Rightarrow> True | Uncaught _ \<Rightarrow> False)"

text \<open>
  \<^verbatim>\<open>String.prototype.trim\<close> on the ASCII white space characters
  (tab, line feed, vertical tab, form feed, carriage return: the codes 9 to 13; space: 32).
\<close>

definition is_ws :: "char \<Rightarrow> bool" where
  "is_ws c = (let n = (of_char c :: nat) in (9 \<le> n \<and> n \<le> 13) \<or> n = 32)"

definition trim :: "string \<Rightarrow> string" where
  "trim s = rev (dropWhile is_ws (rev (dropWhile is_ws s)))"

text \<open>\<^verbatim>\<open>String.prototype.toLowerCase\<close> on the ASCII letters.\<close>

definition lower_char :: "char \<Rightarrow> char" where
  "lower_char c =
     (if 65 \<le> (of_char c :: nat) \<and> (of_char c :: nat) \<le> 90
      then char_of ((of_char c :: nat) + 32) else c)"

definition toLowerCase :: "string \<Rightarrow> string" where
  "toLowerCase s = map lower_char s"

text \<open>\<^verbatim>\<open>Array.prototype.join\<close>.\<close>

fun join :: "string \<Rightarrow> string list \<Rightarrow> string" where
  "join sep [] = []"
| "join sep [x] = x"
| "join sep (x # y # ys) = x @ sep @ join sep (y # ys)"

section \<open>Data model (models/Job.ts, models/Customer.ts, services/csv.service.ts)\<close>

datatype JobStatus = pending | processing | completed | failed

text \<open>
  A row as csv-parser delivers it, and the \<^verbatim>\<open>row\<close> payload of an error record:
  an object with string keys, as an association list in key order.
\<close>

type_synonym js_object = "(string \<times> string) list"

text \<open>\<^verbatim>\<open>raw?.key ?? ""\<close>\<close>

definition field_or_empty :: "js_object \<Rightarrow> string \<Rightarrow> string" where
  "field_or_empty raw k = (case map_of raw k of None \<Rightarrow> [] | Some v \<Rightarrow> v)"

record JobError =
  rowNumber :: nat
  message :: string
  row :: "js_object option"

text \<open>
  \<^verbatim>\<open>CsvProgress\<close> of csv.service.ts. The job document carries the same six fields
  (\<^verbatim>\<open>persistProgress\<close> copies each of them), so \<open>JobDoc\<close> extends this record and
  both keep the source's field names.
\<close>

record CsvProgress =
  totalRows :: nat
  processedRows :: nat
  successCount :: nat
  failedCount :: nat
  errors :: "JobError list"
  lastError :: "string option"

text \<open>
  The job document as the service holds it in memory. \<^verbatim>\<open>startedAt\<close> and
  \<^verbatim>\<open>lastError\<close> are properties jobs.service.ts sets and reads on the document; the
  schema of models/Job.ts declares neither, so they are absent (\<open>None\<close>) from what the
  Job Store holds. Dates are natural numbers.
\<close>

record JobDoc = CsvProgress +
  job_id :: string
  filename :: string
  status :: JobStatus
  createdAt :: nat
  startedAt :: "nat option"
  completedAt :: "nat option"

text \<open>The normalized row \<^verbatim>\<open>{name, email, phone, company}\<close> (\<^verbatim>\<open>CustomerRow\<close>).\<close>

record CustomerRow =
  name :: string
  email :: string
  phone :: string
  company :: string

text \<open>A stored customer; \<open>cust_phone = None\<close> is a document without a phone.\<close>

record CustomerDoc =
  cust_name :: string
  cust_email :: string
  cust_phone :: "string option"
  cust_company :: string
  cust_jobId :: string

section \<open>Row Validator (utils/validators.ts, normalizeRow)\<close>

definition normalizeRow :: "js_object \<Rightarrow> CustomerRow" where
  "normalizeRow raw =
     \<lparr> name = trim (field_or_empty raw ''name''),
       email = toLowerCase (trim (field_or_empty raw ''email'')),
       phone = trim (field_or_empty raw ''phone''),
       company = trim (field_or_empty raw ''company'') \<rparr>"

text \<open>
  \<^verbatim>\<open>customerRowSchema.safeParse\<close>: \<open>Inl\<close> holds the messages of the issues in key
  order, \<open>Inr\<close> the parsed data. The test of zod's \<^verbatim>\<open>.email()\<close> is a library
  function and is the parameter \<open>is_email\<close>.
\<close>

definition safeParse :: "(string \<Rightarrow> bool) \<Rightarrow> CustomerRow \<Rightarrow> string list + CustomerRow" where
  "safeParse is_email r =
     (let n = trim (name r); e = trim (email r); c = trim (company r);
          issues = (if length n < 1 then [''name is required''] else [])
                 @ (if is_email e then [] else [''invalid email''])
                 @ (if length c < 1 then [''company is required''] else [])
      in if issues = []
         then Inr \<lparr> name = n, email = e, phone = phone r, company = c \<rparr>
         else Inl issues)"

section \<open>Error report file name (jobs.service.ts)\<close>

text \<open>The class \<^verbatim>\<open>\w\<close>: letters, digits and the underscore.\<close>

definition is_word_char :: "char \<Rightarrow> bool" where
  "is_word_char c =
     (let n = (of_char c :: nat)
      in (48 \<le> n \<and> n \<le> 57) \<or> (65 \<le> n \<and> n \<le> 90) \<or> (97 \<le> n \<and> n \<le> 122) \<or> n = 95)"

text \<open>
  \<^verbatim>\<open>filename.replace(/\.[^.]+$/, "")\<close>: the first position where the pattern
  matches (a dot, then at least one character, none of them a dot, up to the end) is cut off.
\<close>

fun strip_extension :: "string \<Rightarrow> string" where
  "strip_extension [] = []"
| "strip_extension (c # cs) =
     (if c = CHR ''.'' \<and> cs \<noteq> [] \<and> CHR ''.'' \<notin> set cs then []
      else c # strip_extension cs)"

text \<open>
  \<^verbatim>\<open>base.replace(/[...]+/g, "_")\<close> for a character class \<open>bad\<close>: scanning from the
  left, a character of the class starts a match that takes every following character
  of the class, and the match is replaced by one underscore.
\<close>

function replace_runs :: "(char \<Rightarrow> bool) \<Rightarrow> string \<Rightarrow> string" where
  "replace_runs bad [] = []"
| "replace_runs bad (c # cs) =
     (if bad c then CHR ''_'' # replace_runs bad (dropWhile bad cs)
      else c # replace_runs bad cs)"
  by pat_completeness auto
termination
  by (relation "measure (\<lambda>(bad, s). length s)")
     (auto simp: length_dropWhile_le less_Suc_eq_le)

text \<open>The class \<^verbatim>\<open>[^\w.-]\<close> of \<^verbatim>\<open>sanitizeFilename\<close>.\<close>

definition unsafe_char :: "char \<Rightarrow> bool" where
  "unsafe_char c = (\<not> is_word_char c \<and> c \<noteq> CHR ''.'' \<and> c \<noteq> CHR ''-'')"

definition sanitizeFilename :: "string \<Rightarrow> string" where
  "sanitizeFilename fname =
     (let base = strip_extension fname;
          safe = replace_runs unsafe_char base
      in if safe = [] then ''job'' else safe)"

text \<open>The \<^verbatim>\<open>filename\<close> of the report \<^verbatim>\<open>buildJobErrorReport\<close> returns for a job.\<close>

definition report_filename :: "string \<Rightarrow> string" where
  "report_filename job_filename =
     sanitizeFilename (if job_filename = [] then ''job'' else job_filename) @ ''_errors.csv''"

text \<open>
  The file name as the specification words it: the final extension stripped, every
  maximal run of characters of a class collapsed to one underscore, the suffix
  appended, \<open>job\<close> for an empty base.
\<close>

definition final_extension_stripped :: "string \<Rightarrow> string" where
  "final_extension_stripped s =
     (let ext = takeWhile (\<lambda>c. c \<noteq> CHR ''.'') (rev s)
      in if ext \<noteq> [] \<and> length ext < length s then take (length s - length ext - 1) s else s)"

function maximal_runs :: "(char \<Rightarrow> bool) \<Rightarrow> string \<Rightarrow> string list" where
  "maximal_runs bad [] = []"
| "maximal_runs bad (c # cs) =
     (c # takeWhile (\<lambda>d. bad d = bad c) cs)
       # maximal_runs bad (dropWhile (\<lambda>d. bad d = bad c) cs)"
  by pat_completeness auto
termination
  by (relation "measure (\<lambda>(bad, s). length s)")
     (auto simp: length_dropWhile_le less_Suc_eq_le)

definition collapse_runs :: "(char \<Rightarrow> bool) \<Rightarrow> string \<Rightarrow> string" where
  "collapse_runs bad s =
     concat (map (\<lambda>r. if bad (hd r) then ''_'' else r) (maximal_runs bad s))"

definition spec_report_filename :: "(char \<Rightarrow> bool) \<Rightarrow> string \<Rightarrow> string" where
  "spec_report_filename bad fname =
     (let base = collapse_runs bad (final_extension_stripped fname)
      in (if base = [] then ''job'' else base) @ ''_errors.csv'')"

text \<open>The class the specification names: the characters that are not word characters.\<close>

definition non_word_char :: "char \<Rightarrow> bool" where
  "non_word_char c = (\<not> is_word_char c)"

section \<open>The stores, the temporary files and the observer connections\<close>

text \<open>
  What is sent on a connection and published to observers: the object of
  \<^verbatim>\<open>toProgress\<close> (jobId, filename, status, totalRows, processedRows, successCount,
  failedCount, errorCount, startedAt, completedAt, lastError, createdAt, in this order),
  the object \<^verbatim>\<open>{ jobId, status }\<close> of a terminal event, and \<^verbatim>\<open>{ message }\<close>.
\<close>

datatype payload =
  ProgressPayload string string JobStatus nat nat nat nat nat "nat option" "nat option"
    "string option" nat
| DonePayload string JobStatus
| MessagePayload string

text \<open>
  One call of \<^verbatim>\<open>res.write\<close>: the reconnect hint, the line \<^verbatim>\<open>event: e\<close>, the line
  \<^verbatim>\<open>data: json\<close> that ends an event, an event written by one call, the keep-alive comment.
\<close>

datatype chunk =
  RetryHint nat
| EventLine string
| DataLine payload
| EventBlock string payload
| Ping

text \<open>
  An express response. \<open>broken\<close> stands for a connection on which \<^verbatim>\<open>res.write\<close>
  throws.
\<close>

record Response =
  statusCode :: "nat option"
  headers :: "(string \<times> string) list"
  written :: "chunk list"
  json_body :: "string option"
  ended :: bool
  broken :: bool

text \<open>
  The state the service works on: the Job Store and the Record Store (MongoDB), the
  temporary files (a path holds the rows csv-parser reads from the file), the registry
  \<^verbatim>\<open>clientsByJobId\<close> of sse.service.ts (a set of responses in insertion order, responses
  named by numbers) and the responses themselves. \<open>ops\<close> counts the write operations sent
  to the database. \<open>saved\<close> and \<open>published\<close> are history: the documents \<^verbatim>\<open>save\<close> has
  written, and the calls of \<^verbatim>\<open>broadcast\<close> and \<^verbatim>\<open>broadcastAndClose\<close>, oldest first.
\<close>

record world =
  jobs :: "JobDoc list"
  customers :: "CustomerDoc list"
  files :: "string \<Rightarrow> js_object list option"
  clientsByJobId :: "string \<Rightarrow> nat list option"
  responses :: "nat \<Rightarrow> Response"
  ops :: nat
  saved :: "JobDoc list"
  published :: "(string \<times> string \<times> payload) list"

text \<open>
  What the program does not decide: zod's email test, the mongoose test of an object id,
  the clock, and the failures of the environment. \<open>db_fault n\<close> is the error the database
  answers to the \<open>n\<close>-th write operation with (\<open>None\<close>: it is carried out),
  \<open>lookup_fault\<close> the error it answers to a lookup with. \<open>count_fault\<close> is the read error
  of the file during the counting pass, \<open>stream_fault = Some (k, e)\<close> the read error \<open>e\<close>
  of the file during the second pass, after \<open>k\<close> rows have been handled.
\<close>

record env =
  email_ok :: "string \<Rightarrow> bool"
  isValidObjectId :: "string \<Rightarrow> bool"
  now :: nat
  db_fault :: "nat \<Rightarrow> js_error option"
  lookup_fault :: "js_error option"
  count_fault :: "js_error option"
  stream_fault :: "(nat \<times> js_error) option"

subsection \<open>Job Store\<close>

text \<open>The stored document with an identifier, if any.\<close>

definition stored_job :: "world \<Rightarrow> string \<Rightarrow> JobDoc option" where
  "stored_job w jid = find (\<lambda>j. job_id j = jid) (jobs w)"

definition cast_error :: js_error where
  "cast_error = JsError True None (Some ''Cast to ObjectId failed'')"

text \<open>
  \<^verbatim>\<open>await Job.findById(id)\<close>: mongoose rejects with a CastError for a string that is not
  an object id, and with the error of the database when the lookup fails; otherwise the
  answer is the stored document or null.
\<close>

definition Job_findById :: "env \<Rightarrow> world \<Rightarrow> string \<Rightarrow> js_error + JobDoc option" where
  "Job_findById e w jid =
     (if \<not> isValidObjectId e jid then Inl cast_error
      else case lookup_fault e of
             Some err \<Rightarrow> Inl err
           | None \<Rightarrow> Inr (stored_job w jid))"

text \<open>
  What \<^verbatim>\<open>save\<close> writes of a document: the paths of the schema in models/Job.ts. The
  schema declares neither \<^verbatim>\<open>lastError\<close> nor \<^verbatim>\<open>startedAt\<close>, so these two stay
  properties of the hydrated document in memory and are not stored.
\<close>

definition persisted :: "JobDoc \<Rightarrow> JobDoc" where
  "persisted doc = doc\<lparr>lastError := None, startedAt := None\<rparr>"

definition upsert :: "JobDoc \<Rightarrow> JobDoc list \<Rightarrow> JobDoc list" where
  "upsert doc js =
     (if find (\<lambda>j. job_id j = job_id doc) js = None then js @ [doc]
      else map (\<lambda>j. if job_id j = job_id doc then doc else j) js)"

text \<open>\<^verbatim>\<open>await job.save()\<close>\<close>

definition job_save :: "env \<Rightarrow> JobDoc \<Rightarrow> world \<Rightarrow> (js_error + unit) \<times> world" where
  "job_save e doc w =
     (let w1 = w\<lparr>ops := ops w + 1\<rparr>
      in case db_fault e (ops w) of
           Some err \<Rightarrow> (Inl err, w1)
         | None \<Rightarrow> (Inr (), w1\<lparr>jobs := upsert (persisted doc) (jobs w1),
                                saved := saved w1 @ [persisted doc]\<rparr>))"

text \<open>
  \<^verbatim>\<open>createPendingJob\<close>; the identifier the store gives the new document is the
  argument \<open>new_id\<close>.
\<close>

definition createPendingJob :: "env \<Rightarrow> string \<Rightarrow> string \<Rightarrow> world \<Rightarrow> (js_error + JobDoc) \<times> world" where
  "createPendingJob e new_id fname w =
     (let doc = \<lparr> totalRows = 0, processedRows = 0, successCount = 0, failedCount = 0,
                  errors = [], lastError = None, job_id = new_id, filename = fname,
                  status = pending, createdAt = now e, startedAt = None,
                  completedAt = None \<rparr>
      in case job_save e doc w of
           (Inl err, w1) \<Rightarrow> (Inl err, w1)
         | (Inr _, w1) \<Rightarrow> (Inr doc, w1))"

subsection \<open>Record Store\<close>

text \<open>The error of MongoDB for a violated unique index.\<close>

definition duplicate_key_error :: js_error where
  "duplicate_key_error = JsError True (Some 11000) (Some ''E11000 duplicate key error'')"

text \<open>
  \<^verbatim>\<open>Customer.create\<close>: the setters of the schema (trim, lowercase), then the insert,
  which the unique index on \<^verbatim>\<open>email\<close> rejects for an email already stored. The
  job identifier is taken to be a well-formed object id, as it is where the service calls
  the importer: \<^verbatim>\<open>processCsvJob\<close> has found the job by it.
\<close>

definition Customer_create :: "env \<Rightarrow> CustomerDoc \<Rightarrow> world \<Rightarrow> (js_error + unit) \<times> world" where
  "Customer_create e doc w =
     (let d = \<lparr> cust_name = trim (cust_name doc),
                cust_email = toLowerCase (trim (cust_email doc)),
                cust_phone = map_option trim (cust_phone doc),
                cust_company = trim (cust_company doc),
                cust_jobId = cust_jobId doc \<rparr>;
          w1 = w\<lparr>ops := ops w + 1\<rparr>
      in case db_fault e (ops w) of
           Some err \<Rightarrow> (Inl err, w1)
         | None \<Rightarrow>
             if cust_email d \<in> set (map cust_email (customers w1))
             then (Inl duplicate_key_error, w1)
             else (Inr (), w1\<lparr>customers := customers w1 @ [d]\<rparr>))"

subsection \<open>Temporary files\<close>

definition enoent :: js_error where
  "enoent = JsError True None (Some ''ENOENT: no such file or directory'')"

text \<open>\<^verbatim>\<open>fs.unlink\<close>\<close>

definition fs_unlink :: "string \<Rightarrow> world \<Rightarrow> (js_error + unit) \<times> world" where
  "fs_unlink path w =
     (case files w path of
        None \<Rightarrow> (Inl enoent, w)
      | Some _ \<Rightarrow> (Inr (), w\<lparr>files := (files w)(path := None)\<rparr>))"

definition safeDelete :: "string \<Rightarrow> world \<Rightarrow> world" where
  "safeDelete path w = (case fs_unlink path w of (Inl _, w1) \<Rightarrow> w1 | (Inr _, w1) \<Rightarrow> w1)"

text \<open>
  \<^verbatim>\<open>countRows\<close>: the first pass over the file. Its listener for errors is on the csv
  transform, which emits none with its default options; the read stream piped into it has
  no listener, so a read error (a missing file is one) is an uncaught error.
\<close>

definition countRows :: "env \<Rightarrow> world \<Rightarrow> string \<Rightarrow> nat completion" where
  "countRows e w path =
     (case files w path of
        None \<Rightarrow> Uncaught enoent
      | Some rows \<Rightarrow>
          (case count_fault e of Some err \<Rightarrow> Uncaught err | None \<Rightarrow> Resolved (length rows)))"

text \<open>
  \<^verbatim>\<open>fs.createReadStream(path).pipe(csv())\<close> of the second pass: the rows the loop
  handles, and the read error that occurs after them, if any. The loop iterates over the
  csv transform and is not given this error: the read stream has no listener for it.
\<close>

definition csv_stream :: "env \<Rightarrow> world \<Rightarrow> string \<Rightarrow> js_object list \<times> js_error option" where
  "csv_stream e w path =
     (case files w path of
        None \<Rightarrow> ([], Some enoent)
      | Some rows \<Rightarrow>
          (case stream_fault e of
             None \<Rightarrow> (rows, None)
           | Some (k, err) \<Rightarrow> (take k rows, Some err)))"

subsection \<open>Progress Broadcaster (sse.service.ts)\<close>

definition res_write :: "nat \<Rightarrow> chunk \<Rightarrow> world \<Rightarrow> (js_error + unit) \<times> world" where
  "res_write rid c w =
     (if broken (responses w rid)
      then (Inl (JsError True None (Some ''write after end'')), w)
      else (Inr (), w\<lparr>responses :=
              (responses w)(rid := (responses w rid)\<lparr>written := written (responses w rid) @ [c]\<rparr>)\<rparr>))"

definition res_end :: "nat \<Rightarrow> world \<Rightarrow> world" where
  "res_end rid w = w\<lparr>responses := (responses w)(rid := (responses w rid)\<lparr>ended := True\<rparr>)\<rparr>"

definition writeSafe :: "nat \<Rightarrow> chunk \<Rightarrow> world \<Rightarrow> bool \<times> world" where
  "writeSafe rid c w =
     (case res_write rid c w of (Inr _, w1) \<Rightarrow> (True, w1) | (Inl _, w1) \<Rightarrow> (False, w1))"

definition set_add :: "nat \<Rightarrow> nat list \<Rightarrow> nat list" where
  "set_add x xs = (if x \<in> set xs then xs else xs @ [x])"

definition addClient :: "string \<Rightarrow> nat \<Rightarrow> world \<Rightarrow> world" where
  "addClient jid rid w =
     (let s = (case clientsByJobId w jid of None \<Rightarrow> [] | Some s0 \<Rightarrow> s0)
      in w\<lparr>clientsByJobId := (clientsByJobId w)(jid \<mapsto> set_add rid s)\<rparr>)"

definition removeClient :: "string \<Rightarrow> nat \<Rightarrow> world \<Rightarrow> world" where
  "removeClient jid rid w =
     (case clientsByJobId w jid of
        None \<Rightarrow> w
      | Some s \<Rightarrow>
          (let s1 = removeAll rid s
           in if s1 = [] then w\<lparr>clientsByJobId := (clientsByJobId w)(jid := None)\<rparr>
              else w\<lparr>clientsByJobId := (clientsByJobId w)(jid \<mapsto> s1)\<rparr>))"

definition sendEvent :: "nat \<Rightarrow> string \<Rightarrow> payload \<Rightarrow> world \<Rightarrow> world" where
  "sendEvent rid ev d w = snd (writeSafe rid (DataLine d) (snd (writeSafe rid (EventLine ev) w)))"

definition broadcast :: "string \<Rightarrow> string \<Rightarrow> payload \<Rightarrow> world \<Rightarrow> world" where
  "broadcast jid ev d w =
     (let w0 = w\<lparr>published := published w @ [(jid, ev, d)]\<rparr>
      in case clientsByJobId w0 jid of
           None \<Rightarrow> w0
         | Some s \<Rightarrow>
             fold (\<lambda>rid v. case writeSafe rid (EventLine ev) v of
                             (False, v1) \<Rightarrow> v1
                           | (True, v1) \<Rightarrow> snd (writeSafe rid (DataLine d) v1)) s w0)"

definition broadcastAndClose :: "string \<Rightarrow> string \<Rightarrow> payload \<Rightarrow> world \<Rightarrow> world" where
  "broadcastAndClose jid ev d w =
     (let w0 = w\<lparr>published := published w @ [(jid, ev, d)]\<rparr>
      in case clientsByJobId w0 jid of
           None \<Rightarrow> w0
         | Some s \<Rightarrow>
             (let w1 = fold (\<lambda>rid v. res_end rid (sendEvent rid ev d v)) s w0
              in w1\<lparr>clientsByJobId := (clientsByJobId w1)(jid := None)\<rparr>))"

section \<open>File Importer (services/csv.service.ts)\<close>

text \<open>
  The options of \<^verbatim>\<open>processFile\<close>. The callback \<^verbatim>\<open>onProgress\<close> is a closure: it works
  on the state it has captured (type \<open>'c\<close>) and on the world, and it may throw.
\<close>

record 'c ProcessFileOptions =
  jobId :: string
  filePath :: string
  progressEvery :: "int option"
  maxErrors :: "int option"
  onProgress :: "(CsvProgress \<Rightarrow> 'c \<times> world \<Rightarrow> (js_error + unit) \<times> 'c \<times> world) option"

definition DEFAULT_PROGRESS_EVERY :: int where
  "DEFAULT_PROGRESS_EVERY = 25"

definition DEFAULT_MAX_ERRORS :: int where
  "DEFAULT_MAX_ERRORS = 50"

text \<open>
  \<^verbatim>\<open>a % b !== 0\<close> for a counter \<open>a\<close>: the remainder by zero is NaN, which differs
  from 0, and the remainder has the sign of \<open>a\<close>.
\<close>

definition rem_nonzero :: "nat \<Rightarrow> int \<Rightarrow> bool" where
  "rem_nonzero a b = (b = 0 \<or> int a mod \<bar>b\<bar> \<noteq> 0)"

definition emitProgress ::
  "'c ProcessFileOptions \<Rightarrow> int \<Rightarrow> bool \<Rightarrow> CsvProgress \<Rightarrow> 'c \<times> world
     \<Rightarrow> (js_error + unit) \<times> 'c \<times> world" where
  "emitProgress options every force progress s =
     (case onProgress options of
        None \<Rightarrow> (Inr (), s)
      | Some f \<Rightarrow>
          if \<not> force \<and> rem_nonzero (processedRows progress) every then (Inr (), s)
          else f progress s)"

text \<open>The object \<^verbatim>\<open>parsed.data\<close> as the payload of an error record.\<close>

definition object_of :: "CustomerRow \<Rightarrow> js_object" where
  "object_of d =
     [(''name'', name d), (''email'', email d), (''phone'', phone d), (''company'', company d)]"

text \<open>
  The body of the loop of \<^verbatim>\<open>processFile\<close> for one row, up to the call of
  \<^verbatim>\<open>emitProgress\<close>: the progress after the row and the world after the insert.
\<close>

definition handleRow ::
  "env \<Rightarrow> 'c ProcessFileOptions \<Rightarrow> int \<Rightarrow> js_object \<Rightarrow> nat \<Rightarrow> CsvProgress \<Rightarrow> world
     \<Rightarrow> CsvProgress \<times> world" where
  "handleRow e options maxErr raw currentRow progress w =
     (case safeParse (email_ok e) (normalizeRow raw) of
        Inl issues \<Rightarrow>
          (let p1 = progress\<lparr>failedCount := failedCount progress + 1\<rparr>;
               p2 = p1\<lparr>processedRows := processedRows p1 + 1\<rparr>;
               msg = join '', '' issues;
               p3 = p2\<lparr>lastError := Some msg\<rparr>;
               p4 = (if int (length (errors p3)) < maxErr
                     then p3\<lparr>errors := errors p3 @
                            [\<lparr>rowNumber = currentRow, message = msg, row = Some raw\<rparr>]\<rparr>
                     else p3)
           in (p4, w))
      | Inr d \<Rightarrow>
          (case Customer_create e
                  \<lparr> cust_name = name d, cust_email = email d,
                    cust_phone = (if phone d = [] then None else Some (phone d)),
                    cust_company = company d, cust_jobId = jobId options \<rparr> w of
             (Inr _, w1) \<Rightarrow>
               (let p1 = progress\<lparr>successCount := successCount progress + 1\<rparr>
                in (p1\<lparr>processedRows := processedRows p1 + 1\<rparr>, w1))
           | (Inl err, w1) \<Rightarrow>
               (let p1 = progress\<lparr>failedCount := failedCount progress + 1\<rparr>;
                    msg = (if err_code err = Some 11000 then ''email must be unique''
                           else ''failed to insert customer'');
                    p2 = p1\<lparr>lastError := Some msg\<rparr>;
                    p3 = (if int (length (errors p2)) < maxErr
                          then p2\<lparr>errors := errors p2 @
                                 [\<lparr>rowNumber = currentRow, message = msg,
                                   row = Some (object_of d)\<rparr>]\<rparr>
                          else p2)
                in (p3\<lparr>processedRows := processedRows p3 + 1\<rparr>, w1))))"

text \<open>
  The loop \<^verbatim>\<open>for await (const raw of stream)\<close>: the rows still to come, the read error
  that occurs after them, the progress and \<^verbatim>\<open>currentRow\<close>. The result says how the loop
  ended (the stream ended, \<^verbatim>\<open>emitProgress\<close> threw, or the read error terminated the
  process) and holds the progress at that moment.
\<close>

fun forAwait ::
  "env \<Rightarrow> 'c ProcessFileOptions \<Rightarrow> int \<Rightarrow> int \<Rightarrow> js_object list \<Rightarrow> js_error option
     \<Rightarrow> CsvProgress \<Rightarrow> nat \<Rightarrow> 'c \<times> world
     \<Rightarrow> unit completion \<times> CsvProgress \<times> nat \<times> 'c \<times> world" where
  "forAwait e options every maxErr [] fault progress currentRow s =
     (case fault of
        None \<Rightarrow> (Resolved (), progress, currentRow, s)
      | Some err \<Rightarrow> (Uncaught err, progress, currentRow, s))"
| "forAwait e options every maxErr (raw # rest) fault progress currentRow s =
     (case handleRow e options maxErr raw currentRow progress (snd s) of
        (p1, w1) \<Rightarrow>
          (case emitProgress options every False p1 (fst s, w1) of
             (Inl err, s1) \<Rightarrow> (Rejected err, p1, currentRow + 1, s1)
           | (Inr _, s1) \<Rightarrow> forAwait e options every maxErr rest fault p1 (currentRow + 1) s1))"

text \<open>
  The \<^verbatim>\<open>try\<close> block of \<^verbatim>\<open>processFile\<close>: the loop, then the forced
  \<^verbatim>\<open>emitProgress\<close>.
\<close>

definition processFile_try ::
  "env \<Rightarrow> 'c ProcessFileOptions \<Rightarrow> int \<Rightarrow> int \<Rightarrow> js_object list \<Rightarrow> js_error option
     \<Rightarrow> CsvProgress \<Rightarrow> 'c \<times> world \<Rightarrow> unit completion \<times> CsvProgress \<times> 'c \<times> world" where
  "processFile_try e options every maxErr rows fault progress s =
     (case forAwait e options every maxErr rows fault progress 1 s of
        (Uncaught err, p, c, s1) \<Rightarrow> (Uncaught err, p, s1)
      | (Rejected err, p, c, s1) \<Rightarrow> (Rejected err, p, s1)
      | (Resolved _, p, c, s1) \<Rightarrow>
          (case emitProgress options every True p s1 of
             (Inl err, s2) \<Rightarrow> (Rejected err, p, s2)
           | (Inr _, s2) \<Rightarrow> (Resolved (), p, s2)))"

text \<open>
  \<^verbatim>\<open>processFile\<close>: the counting pass, the first forced \<^verbatim>\<open>emitProgress\<close>
  (before the \<^verbatim>\<open>try\<close> block), the \<^verbatim>\<open>try\<close> block, and the \<^verbatim>\<open>catch\<close>
  block, which records the message of the error, emits once more and throws again. A read
  error of the file ends the call without the \<^verbatim>\<open>catch\<close> block.
\<close>

definition processFile ::
  "env \<Rightarrow> 'c ProcessFileOptions \<Rightarrow> 'c \<times> world \<Rightarrow> CsvProgress completion \<times> 'c \<times> world" where
  "processFile e options s =
     (case countRows e (snd s) (filePath options) of
        Uncaught err \<Rightarrow> (Uncaught err, s)
      | Rejected err \<Rightarrow> (Rejected err, s)
      | Resolved counted \<Rightarrow>
          (let progress = \<lparr> totalRows = counted, processedRows = 0, successCount = 0,
                             failedCount = 0, errors = [], lastError = None \<rparr>;
               every = (case progressEvery options of None \<Rightarrow> DEFAULT_PROGRESS_EVERY | Some n \<Rightarrow> n);
               maxErr = (case maxErrors options of None \<Rightarrow> DEFAULT_MAX_ERRORS | Some n \<Rightarrow> n);
               stream = csv_stream e (snd s) (filePath options)
           in case emitProgress options every True progress s of
                (Inl err, s1) \<Rightarrow> (Rejected err, s1)
              | (Inr _, s1) \<Rightarrow>
                  (case processFile_try e options every maxErr (fst stream) (snd stream)
                          progress s1 of
                     (Uncaught err, p, s4) \<Rightarrow> (Uncaught err, s4)
                   | (Resolved _, p, s4) \<Rightarrow> (Resolved p, s4)
                   | (Rejected err, p, s4) \<Rightarrow>
                       (let p1 = p\<lparr>lastError :=
                                   (if instanceof_Error err then err_message err
                                    else Some ''unknown error'')\<rparr>
                        in case emitProgress options every True p1 s4 of
                             (Inl err2, s5) \<Rightarrow> (Rejected err2, s5)
                           | (Inr _, s5) \<Rightarrow> (Rejected err, s5)))))"

section \<open>Job lifecycle (services/jobs.service.ts)\<close>

definition toProgress :: "JobDoc \<Rightarrow> payload" where
  "toProgress job =
     ProgressPayload (job_id job) (filename job) (status job) (totalRows job)
       (processedRows job) (successCount job) (failedCount job) (length (errors job))
       (startedAt job) (completedAt job) (lastError job) (createdAt job)"

text \<open>
  \<^verbatim>\<open>persistProgress\<close>; the hydrated document \<^verbatim>\<open>job\<close> is the first component of the
  state, and it keeps the assigned fields when \<^verbatim>\<open>save\<close> throws.
\<close>

definition persistProgress ::
  "env \<Rightarrow> CsvProgress \<Rightarrow> JobDoc \<times> world \<Rightarrow> (js_error + unit) \<times> JobDoc \<times> world" where
  "persistProgress e progress s =
     (let job = (fst s)\<lparr> totalRows := totalRows progress,
                          processedRows := processedRows progress,
                          successCount := successCount progress,
                          failedCount := failedCount progress,
                          errors := errors progress,
                          lastError := lastError progress \<rparr>
      in case job_save e job (snd s) of
           (Inl err, w1) \<Rightarrow> (Inl err, job, w1)
         | (Inr _, w1) \<Rightarrow> (Inr (), job, broadcast (job_id job) ''progress'' (toProgress job) w1))"

text \<open>The \<^verbatim>\<open>try\<close> block of \<^verbatim>\<open>processCsvJob\<close>.\<close>

definition processCsvJob_try ::
  "env \<Rightarrow> string \<Rightarrow> string \<Rightarrow> JobDoc \<times> world \<Rightarrow> unit completion \<times> JobDoc \<times> world" where
  "processCsvJob_try e jid path s =
     (case processFile e
             \<lparr> jobId = jid, filePath = path, progressEvery = None, maxErrors = None,
               onProgress = Some (persistProgress e) \<rparr> s of
        (Uncaught err, s1) \<Rightarrow> (Uncaught err, s1)
      | (Rejected err, s1) \<Rightarrow> (Rejected err, s1)
      | (Resolved result, s1) \<Rightarrow>
          (let job = (fst s1)\<lparr>status := completed, completedAt := Some (now e)\<rparr>
           in case persistProgress e result (job, snd s1) of
                (Inl err, s2) \<Rightarrow> (Rejected err, s2)
              | (Inr _, s2) \<Rightarrow>
                  (Resolved (), fst s2,
                   broadcastAndClose jid ''done'' (DonePayload jid completed) (snd s2))))"

text \<open>The \<^verbatim>\<open>catch\<close> block of \<^verbatim>\<open>processCsvJob\<close>, which ends by throwing again.\<close>

definition processCsvJob_catch ::
  "env \<Rightarrow> string \<Rightarrow> js_error \<Rightarrow> JobDoc \<times> world \<Rightarrow> js_error \<times> JobDoc \<times> world" where
  "processCsvJob_catch e jid err s =
     (let job = (fst s)\<lparr> status := failed, completedAt := Some (now e),
                          lastError := Some (case err_message err of
                                               None \<Rightarrow> ''job failed unexpectedly''
                                             | Some m \<Rightarrow> m) \<rparr>
      in case job_save e job (snd s) of
           (Inl err2, w1) \<Rightarrow> (err2, job, w1)
         | (Inr _, w1) \<Rightarrow>
             (err, job,
              broadcastAndClose jid ''done'' (DonePayload jid failed)
                (broadcast jid ''progress'' (toProgress job) w1)))"

text \<open>
  The hydrated document and the world when \<^verbatim>\<open>processCsvJob\<close> enters its \<^verbatim>\<open>try\<close>
  block: the found job put in processing and saved, and the first progress event published.
\<close>

definition entering_try :: "env \<Rightarrow> string \<Rightarrow> JobDoc \<Rightarrow> world \<Rightarrow> JobDoc \<times> world" where
  "entering_try e jid job0 w =
     (let job = job0\<lparr> status := processing, startedAt := Some (now e),
                      completedAt := None, lastError := None \<rparr>
      in (job, broadcast jid ''progress'' (toProgress job) (snd (job_save e job w))))"

text \<open>
  \<^verbatim>\<open>processCsvJob\<close>. The lookup and the first save are before the \<^verbatim>\<open>try\<close> block:
  when one of them throws, neither the \<^verbatim>\<open>catch\<close> nor the \<^verbatim>\<open>finally\<close> block runs.
\<close>

definition processCsvJob :: "env \<Rightarrow> string \<Rightarrow> string \<Rightarrow> world \<Rightarrow> unit completion \<times> world" where
  "processCsvJob e jid path w =
     (case Job_findById e w jid of
        Inl err \<Rightarrow> (Rejected err, w)
      | Inr None \<Rightarrow> (Resolved (), safeDelete path w)
      | Inr (Some job0) \<Rightarrow>
          (let job = job0\<lparr> status := processing, startedAt := Some (now e),
                           completedAt := None, lastError := None \<rparr>
           in case job_save e job w of
                (Inl err, w1) \<Rightarrow> (Rejected err, w1)
              | (Inr _, w1) \<Rightarrow>
                  (case processCsvJob_try e jid path
                          (job, broadcast jid ''progress'' (toProgress job) w1) of
                     (Resolved _, s1) \<Rightarrow> (Resolved (), safeDelete path (snd s1))
                   | (Rejected err, s1) \<Rightarrow>
                       (case processCsvJob_catch e jid err s1 of
                          (err2, s2) \<Rightarrow> (Rejected err2, safeDelete path (snd s2)))
                   | (Uncaught err, s1) \<Rightarrow> (Uncaught err, snd s1))))"

section \<open>Observer attachment (controllers/jobs.controller.ts)\<close>

definition isTerminal :: "JobStatus \<Rightarrow> bool" where
  "isTerminal st = (st = completed \<or> st = failed)"

definition toProgressPayload :: "string \<Rightarrow> JobDoc \<Rightarrow> payload" where
  "toProgressPayload jid job =
     ProgressPayload jid (filename job) (status job) (totalRows job)
       (processedRows job) (successCount job) (failedCount job) (length (errors job))
       (startedAt job) (completedAt job) (lastError job) (createdAt job)"

definition res_json :: "nat \<Rightarrow> nat \<Rightarrow> string \<Rightarrow> world \<Rightarrow> world" where
  "res_json rid code msg w =
     w\<lparr>responses := (responses w)(rid :=
          (responses w rid)\<lparr>statusCode := Some code, json_body := Some msg, ended := True\<rparr>)\<rparr>"

definition sse_headers :: "nat \<Rightarrow> world \<Rightarrow> world" where
  "sse_headers rid w =
     w\<lparr>responses := (responses w)(rid :=
          (responses w rid)\<lparr>statusCode := Some 200,
             headers := headers (responses w rid) @
               [(''Content-Type'', ''text/event-stream''),
                (''Cache-Control'', ''no-cache, no-transform''),
                (''Connection'', ''keep-alive''),
                (''X-Accel-Buffering'', ''no'')]\<rparr>)\<rparr>"

text \<open>
  \<^verbatim>\<open>streamJob\<close> for the request parameter \<open>rawId\<close> and the response \<open>rid\<close>. \<open>Inl\<close> is
  the error handed to \<^verbatim>\<open>next\<close>. The keep-alive timer and the handler of the request's
  \<^verbatim>\<open>close\<close> event, set up after \<^verbatim>\<open>addClient\<close>, run later: they are \<open>keepAlive\<close> and
  \<open>onClose\<close>.
\<close>

definition streamJob :: "env \<Rightarrow> string option \<Rightarrow> nat \<Rightarrow> world \<Rightarrow> (js_error + unit) \<times> world" where
  "streamJob e rawId rid w =
     (case rawId of
        None \<Rightarrow> (Inr (), res_json rid 400 ''Invalid job id'' w)
      | Some jid \<Rightarrow>
          if jid = [] \<or> \<not> isValidObjectId e jid
          then (Inr (), res_json rid 400 ''Invalid job id'' w)
          else
            (case res_write rid (RetryHint 2000) (sse_headers rid w) of
               (Inl err, w1) \<Rightarrow> (Inl err, w1)
             | (Inr _, w1) \<Rightarrow>
                 (case Job_findById e w1 jid of
                    Inl err \<Rightarrow> (Inl err, w1)
                  | Inr None \<Rightarrow>
                      (case res_write rid (EventBlock ''error'' (MessagePayload ''job not found'')) w1 of
                         (Inl err, w2) \<Rightarrow> (Inl err, w2)
                       | (Inr _, w2) \<Rightarrow> (Inr (), res_end rid w2))
                  | Inr (Some job) \<Rightarrow>
                      (let w2 = sendEvent rid ''progress'' (toProgressPayload jid job) w1
                       in if isTerminal (status job)
                          then (Inr (), res_end rid
                                  (sendEvent rid ''done'' (DonePayload jid (status job)) w2))
                          else (Inr (), addClient jid rid w2)))))"

definition keepAlive :: "nat \<Rightarrow> world \<Rightarrow> (js_error + unit) \<times> world" where
  "keepAlive rid w = res_write rid Ping w"

definition onClose :: "string \<Rightarrow> nat \<Rightarrow> world \<Rightarrow> world" where
  "onClose jid rid w = res_end rid (removeClient jid rid w)"

text \<open>
  The events a connection has received: each line \<^verbatim>\<open>event: e\<close> followed by its line
  \<^verbatim>\<open>data: d\<close>, and each event written by one call.
\<close>

fun events_of :: "chunk list \<Rightarrow> (string \<times> payload) list" where
  "events_of (EventLine ev # DataLine d # cs) = (ev, d) # events_of cs"
| "events_of (EventBlock ev d # cs) = (ev, d) # events_of cs"
| "events_of (c # cs) = events_of cs"
| "events_of [] = []"

section \<open>Job Queue (queue/InMemoryJobQueue.ts)\<close>

record QueueJob =
  task_jobId :: string
  task_filePath :: string

text \<open>
  What the queue has done with its worker, oldest first: it called the worker for a job,
  the call returned, or the call threw and the loop caught and logged the error.
\<close>

datatype worker_event = Invoked QueueJob | Returned QueueJob | Caught QueueJob

text \<open>
  The fields of \<^verbatim>\<open>InMemoryJobQueue\<close>, and what JavaScript keeps for its asynchronous
  method \<^verbatim>\<open>process\<close>: \<open>cycles\<close> has one entry for each call of \<^verbatim>\<open>process\<close> that is
  suspended at \<^verbatim>\<open>await this.worker(job)\<close> (the job it waits for), \<open>immediates\<close> counts the
  callbacks given to \<^verbatim>\<open>setImmediate\<close> that have not run yet.
\<close>

record queue_state =
  queue :: "QueueJob list"
  running :: bool
  started :: bool
  cycles :: "QueueJob list"
  immediates :: nat
  worker_log :: "worker_event list"

definition new_queue :: queue_state where
  "new_queue = \<lparr> queue = [], running = False, started = False, cycles = [],
                  immediates = 0, worker_log = [] \<rparr>"

text \<open>
  A call of \<^verbatim>\<open>process\<close> from the test of its \<^verbatim>\<open>while\<close> loop on: either it shifts a
  job, calls the worker and is suspended at the \<^verbatim>\<open>await\<close>, or it leaves the loop and
  runs the \<^verbatim>\<open>finally\<close> block.
\<close>

definition drain :: "queue_state \<Rightarrow> queue_state" where
  "drain q =
     (if started q \<and> length (queue q) > 0
      then q\<lparr> queue := tl (queue q), cycles := cycles q @ [hd (queue q)],
               worker_log := worker_log q @ [Invoked (hd (queue q))] \<rparr>
      else (let q1 = q\<lparr>running := False\<rparr>
            in if started q1 \<and> length (queue q1) > 0
               then q1\<lparr>immediates := immediates q1 + 1\<rparr> else q1))"

definition process :: "queue_state \<Rightarrow> queue_state" where
  "process q = (if \<not> started q \<or> running q then q else drain (q\<lparr>running := True\<rparr>))"

definition start :: "queue_state \<Rightarrow> queue_state" where
  "start q = (if started q then q else process (q\<lparr>started := True\<rparr>))"

definition stop :: "queue_state \<Rightarrow> queue_state" where
  "stop q = q\<lparr>started := False\<rparr>"

definition enqueue :: "QueueJob \<Rightarrow> queue_state \<Rightarrow> queue_state" where
  "enqueue job q =
     (let q1 = q\<lparr>queue := queue q @ [job]\<rparr>
      in if started q1 then process q1 else q1)"

definition size_queue :: "queue_state \<Rightarrow> nat" where
  "size_queue q = length (queue q)"

text \<open>
  The promise the \<open>i\<close>-th suspended call of \<^verbatim>\<open>process\<close> waits for settles: the call
  resumes after the \<^verbatim>\<open>await\<close> (\<open>threw\<close>: in the \<^verbatim>\<open>catch\<close> block) and goes back to the
  test of the loop.
\<close>

definition settle :: "nat \<Rightarrow> bool \<Rightarrow> queue_state \<Rightarrow> queue_state" where
  "settle i threw q =
     (if i < length (cycles q)
      then drain (q\<lparr> cycles := take i (cycles q) @ drop (Suc i) (cycles q),
                      worker_log := worker_log q @
                        [if threw then Caught (cycles q ! i) else Returned (cycles q ! i)] \<rparr>)
      else q)"

text \<open>A callback given to \<^verbatim>\<open>setImmediate\<close> runs.\<close>

definition run_immediate :: "queue_state \<Rightarrow> queue_state" where
  "run_immediate q =
     (if immediates q > 0 then process (q\<lparr>immediates := immediates q - 1\<rparr>) else q)"

text \<open>What happens to a queue, one event at a time, on the single thread of the process.\<close>

datatype queue_event =
  Start | Stop | Enqueue QueueJob | WorkerReturns nat | WorkerThrows nat | Immediate

fun queue_step :: "queue_event \<Rightarrow> queue_state \<Rightarrow> queue_state" where
  "queue_step Start q = start q"
| "queue_step Stop q = stop q"
| "queue_step (Enqueue job) q = enqueue job q"
| "queue_step (WorkerReturns i) q = settle i False q"
| "queue_step (WorkerThrows i) q = settle i True q"
| "queue_step Immediate q = run_immediate q"

definition queue_run :: "queue_event list \<Rightarrow> queue_state \<Rightarrow> queue_state" where
  "queue_run evs q = fold queue_step evs q"

text \<open>The jobs enqueued by a list of events, and the jobs the worker was called for.\<close>

fun enqueued :: "queue_event list \<Rightarrow> QueueJob list" where
  "enqueued [] = []"
| "enqueued (Enqueue job # evs) = job # enqueued evs"
| "enqueued (ev # evs) = enqueued evs"

fun invoked :: "worker_event list \<Rightarrow> QueueJob list" where
  "invoked [] = []"
| "invoked (Invoked job # l) = job # invoked l"
| "invoked (ev # l) = invoked l"

text \<open>
  A log in which the worker runs one job at a time: each call is followed by its own
  return or caught error before the next call; only the last call may still be running.
\<close>

fun one_at_a_time :: "worker_event list \<Rightarrow> bool" where
  "one_at_a_time [] = True"
| "one_at_a_time [Invoked job] = True"
| "one_at_a_time (Invoked job # Returned job' # l) = (job = job' \<and> one_at_a_time l)"
| "one_at_a_time (Invoked job # Caught job' # l) = (job = job' \<and> one_at_a_time l)"
| "one_at_a_time l = False"

section \<open>The queue with the importer as its worker (queue/queue.ts)\<close>

text \<open>
  The worker of queue/queue.ts, and the queue with this worker: the call the queue waits for
  runs to its end on the world, then the queue resumes; it does not resume after a call
  that never settles.
\<close>

definition worker :: "env \<Rightarrow> QueueJob \<Rightarrow> world \<Rightarrow> unit completion \<times> world" where
  "worker e job w = processCsvJob e (task_jobId job) (task_filePath job) w"

definition settle_worker :: "env \<Rightarrow> queue_state \<times> world \<Rightarrow> queue_state \<times> world" where
  "settle_worker e qw =
     (case cycles (fst qw) of
        [] \<Rightarrow> qw
      | job # _ \<Rightarrow>
          (case worker e job (snd qw) of
             (Rejected err, w1) \<Rightarrow> (settle 0 True (fst qw), w1)
           | (Resolved _, w1) \<Rightarrow> (settle 0 False (fst qw), w1)
           | (Uncaught err, w1) \<Rightarrow> (fst qw, w1)))"

section \<open>Predicates used in the properties\<close>

text \<open>The six fields a job document shares with \<^verbatim>\<open>CsvProgress\<close>.\<close>

definition progress_of :: "JobDoc \<Rightarrow> CsvProgress" where
  "progress_of job =
     \<lparr> totalRows = totalRows job, processedRows = processedRows job,
       successCount = successCount job, failedCount = failedCount job,
       errors = errors job, lastError = lastError job \<rparr>"

text \<open>
  A property \<open>P\<close> of the progress fields holds for the hydrated document, for every
  document saved since the history had \<open>n\<close> entries, and for every stored document.
\<close>

definition saves_ok :: "(CsvProgress \<Rightarrow> bool) \<Rightarrow> nat \<Rightarrow> JobDoc \<times> world \<Rightarrow> bool" where
  "saves_ok P n s =
     (P (progress_of (fst s)) \<and> n \<le> length (saved (snd s))
      \<and> list_all (\<lambda>d. P (progress_of d)) (drop n (saved (snd s)))
      \<and> list_all (\<lambda>d. P (progress_of d)) (jobs (snd s)))"

text \<open>The invariant of the counters.\<close>

definition counters_ok :: "'a CsvProgress_scheme \<Rightarrow> bool" where
  "counters_ok p = (processedRows p = successCount p + failedCount p)"

text \<open>The stored job, if any, is not completed.\<close>

definition stored_not_completed :: "string \<Rightarrow> world \<Rightarrow> bool" where
  "stored_not_completed jid w =
     (case stored_job w jid of None \<Rightarrow> True | Some x \<Rightarrow> status x \<noteq> completed)"

text \<open>
  The hydrated document belongs to the job \<open>jid\<close> and is in processing, the temporary
  files are \<open>fs\<close>, and the stored job is not completed.
\<close>

definition in_progress ::
  "string \<Rightarrow> (string \<Rightarrow> js_object list option) \<Rightarrow> JobDoc \<times> world \<Rightarrow> bool" where
  "in_progress jid fs s =
     (job_id (fst s) = jid \<and> status (fst s) = processing \<and> files (snd s) = fs
      \<and> stored_not_completed jid (snd s))"

text \<open>The job of the call that has not returned yet, at the end of a log (none: empty).\<close>

fun open_call :: "worker_event list \<Rightarrow> QueueJob list" where
  "open_call [] = []"
| "open_call [Invoked job] = [job]"
| "open_call (Invoked job # Returned job' # l) = open_call l"
| "open_call (Invoked job # Caught job' # l) = open_call l"
| "open_call l = []"

text \<open>
  What holds of a queue between two events: the log has one call at a time, the suspended
  calls of \<^verbatim>\<open>process\<close> are exactly the open call of the log, \<^verbatim>\<open>running\<close> is set exactly
  while such a call exists, no callback is pending, and a started queue without a
  suspended call is empty.
\<close>

definition queue_inv :: "queue_state \<Rightarrow> bool" where
  "queue_inv q =
     (one_at_a_time (worker_log q) \<and> cycles q = open_call (worker_log q)
      \<and> running q = (cycles q \<noteq> []) \<and> immediates q = 0
      \<and> (if started q \<and> cycles q = [] then queue q = [] else True))"

section \<open>Concrete inputs\<close>

definition env0 :: env where
  "env0 = \<lparr> email_ok = (\<lambda>s. CHR ''@'' \<in> set s), isValidObjectId = (\<lambda>s. length s = 24),
            now = 1000, db_fault = (\<lambda>n. None), lookup_fault = None, count_fault = None,
            stream_fault = None \<rparr>"

definition response0 :: Response where
  "response0 = \<lparr> statusCode = None, headers = [], written = [], json_body = None,
                 ended = False, broken = False \<rparr>"

definition world0 :: world where
  "world0 = \<lparr> jobs = [], customers = [], files = (\<lambda>p. None), clientsByJobId = (\<lambda>j. None),
              responses = (\<lambda>r. response0), ops = 0, saved = [], published = [] \<rparr>"

definition jid1 :: string where
  "jid1 = ''65f0a1b2c3d4e5f6a7b8c9d0''"

definition options0 :: "unit ProcessFileOptions" where
  "options0 = \<lparr> jobId = jid1, filePath = ''up/a.csv'', progressEvery = None,
                maxErrors = None, onProgress = None \<rparr>"

definition progress0 :: CsvProgress where
  "progress0 = \<lparr> totalRows = 2, processedRows = 0, successCount = 0, failedCount = 0,
                 errors = [], lastError = None \<rparr>"

definition row_ann :: js_object where
  "row_ann = [(''name'', ''Ann''), (''email'', '' Ann@Example.org''), (''phone'', ''  ''),
              (''company'', ''Acme'')]"

definition world_upload :: world where
  "world_upload =
     world0\<lparr>files := (\<lambda>p. if p = ''up/a.csv'' then Some [row_ann, row_ann] else None)\<rparr>"

definition world_ann :: world where
  "world_ann = world0\<lparr>customers :=
     [\<lparr> cust_name = ''Ann'', cust_email = ''ann@example.org'', cust_phone = None,
        cust_company = ''Acme'', cust_jobId = ''65f0a1b2c3d4e5f6a7b8c9cf'' \<rparr>]\<rparr>"

definition job_done :: JobDoc where
  "job_done = \<lparr> totalRows = 2, processedRows = 2, successCount = 2, failedCount = 0,
                errors = [], lastError = None, job_id = jid1, filename = ''a.csv'',
                status = completed, createdAt = 900, startedAt = None,
                completedAt = Some 990 \<rparr>"

definition world_done :: world where
  "world_done = world0\<lparr>jobs := [job_done]\<rparr>"

definition job_pending :: JobDoc where
  "job_pending = \<lparr> totalRows = 0, processedRows = 0, successCount = 0, failedCount = 0,
                   errors = [], lastError = None, job_id = jid1, filename = ''a.csv'',
                   status = pending, createdAt = 900, startedAt = None,
                   completedAt = None \<rparr>"

definition world_pending :: world where
  "world_pending = world_upload\<lparr>jobs := [job_pending]\<rparr>"

definition progress_full :: CsvProgress where
  "progress_full = \<lparr> totalRows = 3, processedRows = 1, successCount = 0, failedCount = 1,
       errors = [\<lparr>rowNumber = 1, message = ''name is required'', row = None\<rparr>],
       lastError = Some ''name is required'' \<rparr>"

text \<open>What a run returns, and the job it leaves stored.\<close>

definition outcome :: "string \<Rightarrow> unit completion \<times> world \<Rightarrow> unit completion \<times> JobDoc option" where
  "outcome jid rw = (case rw of (r, w) \<Rightarrow> (r, stored_job w jid))"

text \<open>The database refuses its second write, the first save of the progress.\<close>

definition write_refused :: js_error where
  "write_refused = JsError True None (Some ''connection closed'')"

definition env_save_rejected :: env where
  "env_save_rejected = env0\<lparr>db_fault := (\<lambda>n. if n = 1 then Some write_refused else None)\<rparr>"

definition job_after_success :: JobDoc where
  "job_after_success =
     \<lparr> totalRows = 2, processedRows = 2, successCount = 1, failedCount = 1,
       errors = [\<lparr> rowNumber = 2, message = ''email must be unique'',
                   row = Some [(''name'', ''Ann''), (''email'', ''ann@example.org''),
                               (''phone'', []), (''company'', ''Acme'')] \<rparr>],
       lastError = None, job_id = jid1, filename = ''a.csv'',
       status = completed, createdAt = 900, startedAt = None, completedAt = Some 1000 \<rparr>"

text \<open>
  The hydrated document when the \<^verbatim>\<open>try\<close> block of that run throws, the one its
  \<^verbatim>\<open>catch\<close> block saves, and what is stored of it.
\<close>

definition job_when_thrown :: JobDoc where
  "job_when_thrown =
     \<lparr> totalRows = 2, processedRows = 0, successCount = 0, failedCount = 0,
       errors = [], lastError = None, job_id = jid1, filename = ''a.csv'',
       status = processing, createdAt = 900, startedAt = Some 1000, completedAt = None \<rparr>"

definition job_marked_failed :: JobDoc where
  "job_marked_failed =
     job_when_thrown\<lparr>status := failed, completedAt := Some 1000,
                       lastError := Some ''connection closed''\<rparr>"

definition job_after_failure :: JobDoc where
  "job_after_failure =
     \<lparr> totalRows = 2, processedRows = 0, successCount = 0, failedCount = 0,
       errors = [], lastError = None, job_id = jid1,
       filename = ''a.csv'', status = failed, createdAt = 900, startedAt = None,
       completedAt = Some 1000 \<rparr>"

text \<open>
  The file becomes unreadable after its first row, and the job this leaves stored.
\<close>

definition eio :: js_error where
  "eio = JsError True None (Some ''EIO: i/o error, read'')"

definition env_unreadable :: env where
  "env_unreadable = env0\<lparr>stream_fault := Some (1, eio)\<rparr>"

definition job_left_processing :: JobDoc where
  "job_left_processing =
     \<lparr> totalRows = 2, processedRows = 0, successCount = 0, failedCount = 0,
       errors = [], lastError = None, job_id = jid1, filename = ''a.csv'',
       status = processing, createdAt = 900, startedAt = None, completedAt = None \<rparr>"

definition task_A :: QueueJob where
  "task_A = \<lparr> task_jobId = jid1, task_filePath = ''up/a.csv'' \<rparr>"

definition task_B :: QueueJob where
  "task_B = \<lparr> task_jobId = ''65f0a1b2c3d4e5f6a7b8c9d1'', task_filePath = ''up/b.csv'' \<rparr>"

definition task_C :: QueueJob where
  "task_C = \<lparr> task_jobId = ''65f0a1b2c3d4e5f6a7b8c9d2'', task_filePath = ''up/c.csv'' \<rparr>"

definition env_db_down :: env where
  "env_db_down = env0\<lparr>db_fault := (\<lambda>n. Some (JsError True None (Some ''connection closed'')))\<rparr>"

section \<open>Strings\<close>

lemma dropWhile_hd_id: "xs = [] \<or> \<not> P (hd xs) \<Longrightarrow> dropWhile P xs = xs"
  by (cases xs) auto

lemma last_dropWhile: "dropWhile P xs \<noteq> [] \<Longrightarrow> last (dropWhile P xs) = last xs"
  by (induction xs) (auto split: if_splits)

lemma trim_fixed:
  assumes "t = [] \<or> (\<not> is_ws (hd t) \<and> \<not> is_ws (last t))"
  shows "trim t = t"
proof (cases "t = []")
  case True
  then show ?thesis by (simp add: trim_def)
next
  case False
  with assms have h: "\<not> is_ws (hd t)" and l: "\<not> is_ws (last t)" by auto
  have "dropWhile is_ws t = t" using h by (simp add: dropWhile_hd_id)
  moreover have "dropWhile is_ws (rev t) = rev t"
    using l False by (simp add: dropWhile_hd_id hd_rev)
  ultimately show ?thesis by (simp add: trim_def)
qed

lemma trim_ends: "trim s = [] \<or> (\<not> is_ws (hd (trim s)) \<and> \<not> is_ws (last (trim s)))"
proof (cases "trim s = []")
  case True
  then show ?thesis by simp
next
  case False
  define d where "d = dropWhile is_ws s"
  define u where "u = dropWhile is_ws (rev d)"
  have t: "trim s = rev u" by (simp add: trim_def u_def d_def)
  with False have u: "u \<noteq> []" by simp
  then have hu: "\<not> is_ws (hd u)" unfolding u_def by (rule hd_dropWhile)
  from u have d: "d \<noteq> []" by (auto simp: u_def)
  then have hd: "\<not> is_ws (hd d)" unfolding d_def by (rule hd_dropWhile)
  have "last u = last (rev d)" using u unfolding u_def by (rule last_dropWhile)
  then have lu: "last u = hd d" using d by (simp add: last_rev)
  have "hd (trim s) = last u" using u t by (simp add: hd_rev)
  moreover have "last (trim s) = hd u" using u t by (simp add: last_rev)
  ultimately show ?thesis using hu hd lu by simp
qed

lemma trim_idem: "trim (trim s) = trim s"
  by (rule trim_fixed) (rule trim_ends)

lemma is_ws_lower_char: "is_ws (lower_char c) = is_ws c"
  by (auto simp: is_ws_def lower_char_def Let_def)

lemma trim_toLowerCase_trim: "trim (toLowerCase (trim s)) = toLowerCase (trim s)"
proof (rule trim_fixed)
  show "toLowerCase (trim s) = [] \<or>
      \<not> is_ws (hd (toLowerCase (trim s))) \<and> \<not> is_ws (last (toLowerCase (trim s)))"
    using trim_ends [of s]
    by (auto simp: toLowerCase_def hd_map last_map is_ws_lower_char)
qed

section \<open>The error report file name\<close>

lemma replace_runs_good_prefix:
  "\<forall>d\<in>set xs. \<not> bad d \<Longrightarrow> replace_runs bad (xs @ ys) = xs @ replace_runs bad ys"
  by (induction xs) auto

lemma replace_runs_eq_collapse: "replace_runs bad s = collapse_runs bad s"
  unfolding collapse_runs_def
proof (induction bad s rule: maximal_runs.induct)
  case (1 bad)
  then show ?case by simp
next
  case (2 bad c cs)
  show ?case
  proof (cases "bad c")
    case True
    then have "dropWhile (\<lambda>d. bad d = bad c) cs = dropWhile bad cs" by simp
    with 2 True show ?thesis by simp
  next
    case False
    have good: "\<forall>d\<in>set (takeWhile (\<lambda>d. bad d = bad c) cs). \<not> bad d"
      using False by (auto dest: set_takeWhileD)
    have "replace_runs bad cs =
        takeWhile (\<lambda>d. bad d = bad c) cs @ replace_runs bad (dropWhile (\<lambda>d. bad d = bad c) cs)"
      using replace_runs_good_prefix [OF good, of "dropWhile (\<lambda>d. bad d = bad c) cs"] by simp
    with 2 False show ?thesis by simp
  qed
qed

lemma strip_extension_cut:
  "e \<noteq> [] \<Longrightarrow> CHR ''.'' \<notin> set e \<Longrightarrow> strip_extension (b @ CHR ''.'' # e) = b"
  by (induction b) auto

lemma strip_extension_keep:
  "CHR ''.'' \<notin> set s \<or> (s \<noteq> [] \<and> last s = CHR ''.'') \<Longrightarrow> strip_extension s = s"
  by (induction s) (auto split: if_splits dest: last_in_set)

lemma strip_extension_eq: "strip_extension s = final_extension_stripped s"
proof (cases "CHR ''.'' \<in> set s")
  case False
  then have tw: "takeWhile (\<lambda>c. c \<noteq> CHR ''.'') (rev s) = rev s"
    by (auto intro: takeWhile_eq_all_conv [THEN iffD2])
  show ?thesis
    by (simp add: final_extension_stripped_def tw strip_extension_keep False)
next
  case True
  define ext where "ext = takeWhile (\<lambda>c. c \<noteq> CHR ''.'') (rev s)"
  define rest where "rest = dropWhile (\<lambda>c. c \<noteq> CHR ''.'') (rev s)"
  have rs: "rev s = ext @ rest" by (simp add: ext_def rest_def)
  have "rest \<noteq> []" using True by (auto simp: rest_def dropWhile_eq_Nil_conv)
  moreover have "rest \<noteq> [] \<Longrightarrow> hd rest = CHR ''.''"
    unfolding rest_def using hd_dropWhile [of "\<lambda>c. c \<noteq> CHR ''.''" "rev s"] by simp
  ultimately obtain rest' where rest': "rest = CHR ''.'' # rest'" by (cases rest) auto
  have s: "s = rev rest' @ CHR ''.'' # rev ext"
    using rs rest' by (metis rev_append rev.simps(2) rev_rev_ident append.assoc append_Cons append_Nil)
  have nodot: "CHR ''.'' \<notin> set (rev ext)"
    unfolding ext_def by (auto dest: set_takeWhileD)
  show ?thesis
  proof (cases "ext = []")
    case True
    with s have "s \<noteq> [] \<and> last s = CHR ''.''" by simp
    then have "strip_extension s = s" by (simp add: strip_extension_keep)
    moreover have "final_extension_stripped s = s"
      using True by (simp add: final_extension_stripped_def ext_def Let_def)
    ultimately show ?thesis by simp
  next
    case False
    then have "strip_extension s = rev rest'"
      using strip_extension_cut [of "rev ext" "rev rest'"] nodot s by simp
    moreover have "final_extension_stripped s = rev rest'"
    proof -
      have len: "length s = length rest' + 1 + length ext" using s by simp
      have tk: "take (length rest') s = rev rest'" using s by simp
      have "final_extension_stripped s =
          (if ext \<noteq> [] \<and> length ext < length s then take (length s - length ext - 1) s else s)"
        by (simp add: final_extension_stripped_def ext_def Let_def)
      also have "\<dots> = take (length rest') s" using False len by simp
      finally show ?thesis using tk by simp
    qed
    ultimately show ?thesis by simp
  qed
qed

lemma sanitizeFilename_job: "sanitizeFilename ''job'' = ''job''"
  by code_simp

lemma spec_report_filename_empty: "spec_report_filename bad [] = ''job_errors.csv''"
  by (simp add: spec_report_filename_def final_extension_stripped_def collapse_runs_def)

text \<open>
  C9 (amended). The file name of the error report is the job's file name with its final
  extension stripped and every maximal run of characters other than word characters,
  dots and hyphens collapsed to one underscore, followed by \<open>_errors.csv\<close>; an empty
  base gives \<open>job\<close>. Dots and hyphens of the base are kept as they are.
\<close>

theorem report_filename_amended:
  "report_filename fname = spec_report_filename unsafe_char fname"
proof (cases "fname = []")
  case True
  then show ?thesis
    by (simp add: report_filename_def sanitizeFilename_job spec_report_filename_empty)
next
  case False
  then show ?thesis
    by (simp add: report_filename_def sanitizeFilename_def spec_report_filename_def Let_def
        strip_extension_eq replace_runs_eq_collapse)
qed

theorem report_filename_amended_witness:
  "spec_report_filename unsafe_char ''my data (1).v2.csv'' = ''my_data_1_.v2_errors.csv''"
proof -
  have "report_filename ''my data (1).v2.csv'' = ''my_data_1_.v2_errors.csv''"
    by code_simp
  then show ?thesis
    using report_filename_amended [of "''my data (1).v2.csv''"] by simp
qed

theorem report_filename_nonword_counterexample:
  "report_filename ''a-b.csv'' \<noteq> spec_report_filename non_word_char ''a-b.csv''"
  by code_simp

section \<open>The Row Validator and the phone field\<close>

lemma safeParse_normalizeRow:
  "safeParse ok (normalizeRow raw) =
     (if name (normalizeRow raw) = [] \<or> company (normalizeRow raw) = []
         \<or> \<not> ok (email (normalizeRow raw))
      then Inl ((if name (normalizeRow raw) = [] then [''name is required''] else [])
              @ (if ok (email (normalizeRow raw)) then [] else [''invalid email''])
              @ (if company (normalizeRow raw) = [] then [''company is required''] else []))
      else Inr (normalizeRow raw))"
  by (auto simp: safeParse_def normalizeRow_def Let_def trim_idem trim_toLowerCase_trim)

lemma Customer_create_cases:
  "Customer_create e doc w = (r, w1) \<Longrightarrow>
     ops w1 = ops w + 1 \<and> jobs w1 = jobs w \<and> saved w1 = saved w \<and> published w1 = published w
     \<and> files w1 = files w \<and> clientsByJobId w1 = clientsByJobId w \<and> responses w1 = responses w
     \<and> (case r of
           Inl err \<Rightarrow> customers w1 = customers w
             \<and> (case db_fault e (ops w) of
                   Some err' \<Rightarrow> err = err'
                 | None \<Rightarrow> err = duplicate_key_error
                     \<and> toLowerCase (trim (cust_email doc)) \<in> cust_email ` set (customers w))
         | Inr _ \<Rightarrow> db_fault e (ops w) = None
             \<and> toLowerCase (trim (cust_email doc)) \<notin> cust_email ` set (customers w)
             \<and> customers w1 = customers w @
                 [\<lparr> cust_name = trim (cust_name doc),
                    cust_email = toLowerCase (trim (cust_email doc)),
                    cust_phone = map_option trim (cust_phone doc),
                    cust_company = trim (cust_company doc),
                    cust_jobId = cust_jobId doc \<rparr>])"
  by (auto simp: Customer_create_def Let_def split: option.splits if_splits)

text \<open>
  C8. Whether a row is valid is decided by its name, email and company alone, so an absent
  or blank phone causes no validation failure. When the row is persisted, the stored
  customer has no phone if the trimmed phone field is empty or absent, and the trimmed
  phone otherwise; a stored phone is never the empty string.
\<close>

theorem phone_optional_never_empty:
  assumes run: "handleRow e options maxErr raw currentRow progress w = (p1, w1)"
      and persisted: "customers w1 \<noteq> customers w"
  shows "isl (safeParse (email_ok e) (normalizeRow raw)) =
           (name (normalizeRow raw) = [] \<or> company (normalizeRow raw) = []
             \<or> \<not> email_ok e (email (normalizeRow raw)))
       \<and> (\<exists>c. customers w1 = customers w @ [c]
             \<and> cust_phone c =
                 (if trim (field_or_empty raw ''phone'') = [] then None
                  else Some (trim (field_or_empty raw ''phone'')))
             \<and> cust_phone c \<noteq> Some [])"
proof
  show "isl (safeParse (email_ok e) (normalizeRow raw)) =
           (name (normalizeRow raw) = [] \<or> company (normalizeRow raw) = []
             \<or> \<not> email_ok e (email (normalizeRow raw)))"
    by (simp add: safeParse_normalizeRow)
next
  let ?d = "normalizeRow raw"
  let ?doc = "\<lparr> cust_name = name ?d, cust_email = email ?d,
                 cust_phone = (if phone ?d = [] then None else Some (phone ?d)),
                 cust_company = company ?d, cust_jobId = jobId options \<rparr>"
  have valid: "safeParse (email_ok e) ?d = Inr ?d"
    using run persisted
    by (auto simp: handleRow_def safeParse_normalizeRow Let_def split: if_splits)
  obtain r where cc: "Customer_create e ?doc w = (r, w1)"
    using run valid by (auto simp: handleRow_def Let_def split: prod.splits sum.splits)
  from Customer_create_cases [OF cc] persisted
  have cust: "customers w1 = customers w @
                 [\<lparr> cust_name = trim (cust_name ?doc),
                    cust_email = toLowerCase (trim (cust_email ?doc)),
                    cust_phone = map_option trim (cust_phone ?doc),
                    cust_company = trim (cust_company ?doc),
                    cust_jobId = cust_jobId ?doc \<rparr>]"
    by (cases r) auto
  have ph: "phone ?d = trim (field_or_empty raw ''phone'')" by (simp add: normalizeRow_def)
  show "\<exists>c. customers w1 = customers w @ [c]
             \<and> cust_phone c =
                 (if trim (field_or_empty raw ''phone'') = [] then None
                  else Some (trim (field_or_empty raw ''phone'')))
             \<and> cust_phone c \<noteq> Some []"
    using cust ph by (auto simp: trim_idem)
qed

theorem phone_optional_never_empty_witness:
  "customers (snd (handleRow env0 options0 50 row_ann 1 progress0 world0)) \<noteq> customers world0
   \<and> (\<exists>c. customers (snd (handleRow env0 options0 50 row_ann 1 progress0 world0))
            = customers world0 @ [c] \<and> cust_phone c = None)"
proof -
  have h: "customers (snd (handleRow env0 options0 50 row_ann 1 progress0 world0))
      \<noteq> customers world0"
    by code_simp
  have blank: "trim (field_or_empty row_ann ''phone'') = []"
    by code_simp
  from phone_optional_never_empty [OF prod.collapse [symmetric] h] blank h
  show ?thesis by auto
qed

section \<open>Rows the Record Store rejects\<close>

text \<open>
  C3. For a valid row whose insert is rejected with the error \<open>err\<close>, the message
  recorded for the row is exactly \<open>email must be unique\<close> when the error is a duplicate
  key error (code 11000, which is what the unique index on the email answers) and exactly
  \<open>failed to insert customer\<close> for any other error. The message becomes the last error
  and, while the list is below its cap, the message of a new error record. The counters
  \<open>failedCount\<close> and \<open>processedRows\<close> grow by one and \<open>successCount\<close> is unchanged.
\<close>

theorem insert_failure_recorded:
  assumes valid: "safeParse (email_ok e) (normalizeRow raw) = Inr d"
      and rejected: "Customer_create e
                \<lparr> cust_name = name d, cust_email = email d,
                  cust_phone = (if phone d = [] then None else Some (phone d)),
                  cust_company = company d, cust_jobId = jobId options \<rparr> w = (Inl err, w1)"
      and run: "handleRow e options maxErr raw currentRow progress w = (p1, w2)"
  shows "lastError p1 = Some (if err_code err = Some 11000 then ''email must be unique''
                              else ''failed to insert customer'')
       \<and> failedCount p1 = failedCount progress + 1
       \<and> processedRows p1 = processedRows progress + 1
       \<and> successCount p1 = successCount progress
       \<and> errors p1 =
           (if int (length (errors progress)) < maxErr
            then errors progress @
                   [\<lparr> rowNumber = currentRow,
                      message = (if err_code err = Some 11000 then ''email must be unique''
                                 else ''failed to insert customer''),
                      row = Some (object_of d) \<rparr>]
            else errors progress)
       \<and> customers w2 = customers w
       \<and> (case db_fault e (ops w) of
             Some err' \<Rightarrow> err = err'
           | None \<Rightarrow> err_code err = Some 11000
               \<and> toLowerCase (trim (email d)) \<in> cust_email ` set (customers w))"
proof -
  from Customer_create_cases [OF rejected]
  have store: "customers w1 = customers w"
    and why: "(case db_fault e (ops w) of
             Some err' \<Rightarrow> err = err'
           | None \<Rightarrow> err = duplicate_key_error
               \<and> toLowerCase (trim (email d)) \<in> cust_email ` set (customers w))"
    by (auto split: option.splits)
  from run valid rejected
  have p1: "p1 = progress\<lparr> failedCount := failedCount progress + 1,
                 lastError := Some (if err_code err = Some 11000 then ''email must be unique''
                                    else ''failed to insert customer''),
                 errors := (if int (length (errors progress)) < maxErr
                    then errors progress @
                           [\<lparr> rowNumber = currentRow,
                              message = (if err_code err = Some 11000 then ''email must be unique''
                                         else ''failed to insert customer''),
                              row = Some (object_of d) \<rparr>]
                    else errors progress),
                 processedRows := processedRows progress + 1 \<rparr>"
    and w2: "w2 = w1"
    by (auto simp: handleRow_def Let_def)
  from why have "case db_fault e (ops w) of
             Some err' \<Rightarrow> err = err'
           | None \<Rightarrow> err_code err = Some 11000
               \<and> toLowerCase (trim (email d)) \<in> cust_email ` set (customers w)"
    by (auto simp: duplicate_key_error_def split: option.splits)
  with p1 w2 store show ?thesis by simp
qed

theorem insert_failure_recorded_witness:
  "lastError (fst (handleRow env0 options0 50 row_ann 2 progress0 world_ann))
     = Some ''email must be unique''
   \<and> failedCount (fst (handleRow env0 options0 50 row_ann 2 progress0 world_ann)) = 1
   \<and> successCount (fst (handleRow env0 options0 50 row_ann 2 progress0 world_ann)) = 0"
proof -
  have v: "safeParse (email_ok env0) (normalizeRow row_ann) = Inr (normalizeRow row_ann)"
    by code_simp
  have r: "Customer_create env0
                \<lparr> cust_name = name (normalizeRow row_ann), cust_email = email (normalizeRow row_ann),
                  cust_phone = (if phone (normalizeRow row_ann) = [] then None
                                else Some (phone (normalizeRow row_ann))),
                  cust_company = company (normalizeRow row_ann), cust_jobId = jobId options0 \<rparr>
                world_ann = (Inl duplicate_key_error, world_ann\<lparr>ops := 1\<rparr>)"
    by (simp add: Customer_create_def Let_def env0_def world_ann_def world0_def
        normalizeRow_def row_ann_def field_or_empty_def) code_simp
  have c: "err_code duplicate_key_error = Some 11000" "failedCount progress0 = 0"
      "successCount progress0 = 0"
    by (simp_all add: duplicate_key_error_def progress0_def)
  from insert_failure_recorded [OF v r prod.collapse [symmetric], of 50 2 progress0] c
  show ?thesis by simp
qed

section \<open>A job that is not in the Job Store\<close>

lemma safeDelete_files: "safeDelete path w = w\<lparr>files := (files w)(path := None)\<rparr>"
  by (auto simp: safeDelete_def fs_unlink_def fun_upd_idem split: option.splits)

lemma stored_job_jobs: "jobs w1 = jobs w \<Longrightarrow> stored_job w1 jid = stored_job w jid"
  by (simp add: stored_job_def)

lemma Job_findById_jobs: "jobs w1 = jobs w \<Longrightarrow> Job_findById e w1 jid = Job_findById e w jid"
  by (auto simp: Job_findById_def stored_job_def split: option.splits)

lemma Job_findById_Inr:
  "Job_findById e w jid = Inr j
     \<longleftrightarrow> isValidObjectId e jid \<and> lookup_fault e = None \<and> stored_job w jid = j"
  by (auto simp: Job_findById_def split: option.splits)

text \<open>
  C10. For a well-formed job identifier for which the Job Store answers that it has no
  job, \<open>processCsvJob\<close> returns normally and changes nothing but the temporary files, where
  the path of the source file no longer exists: the Job Store, the Record Store and the
  published events are as before.
\<close>

theorem missing_job_only_deletes_file:
  assumes "isValidObjectId e jid"
      and "Job_findById e w jid = Inr None"
  shows "processCsvJob e jid path w = (Resolved (), w\<lparr>files := (files w)(path := None)\<rparr>)"
  using assms by (simp add: processCsvJob_def safeDelete_files)

theorem missing_job_only_deletes_file_witness:
  "isValidObjectId env0 jid1
   \<and> Job_findById env0 world_upload jid1 = Inr None
   \<and> files world_upload ''up/a.csv'' \<noteq> None
   \<and> fst (processCsvJob env0 jid1 ''up/a.csv'' world_upload) = Resolved ()
   \<and> files (snd (processCsvJob env0 jid1 ''up/a.csv'' world_upload)) ''up/a.csv'' = None
   \<and> jobs (snd (processCsvJob env0 jid1 ''up/a.csv'' world_upload)) = jobs world_upload
   \<and> customers (snd (processCsvJob env0 jid1 ''up/a.csv'' world_upload)) = customers world_upload
   \<and> published (snd (processCsvJob env0 jid1 ''up/a.csv'' world_upload)) = published world_upload"
proof -
  have v: "isValidObjectId env0 jid1" by (simp add: env0_def jid1_def)
  have h: "Job_findById env0 world_upload jid1 = Inr None"
    by (simp add: Job_findById_def stored_job_def env0_def jid1_def world_upload_def world0_def)
  have f: "files world_upload ''up/a.csv'' \<noteq> None" by (simp add: world_upload_def)
  show ?thesis
    using v h f missing_job_only_deletes_file [OF v h, of "''up/a.csv''"] by simp
qed

section \<open>Attaching to a finished job\<close>

lemma res_write_ok:
  "\<not> broken (responses w rid) \<Longrightarrow>
     res_write rid c w = (Inr (), w\<lparr>responses :=
        (responses w)(rid := (responses w rid)\<lparr>written := written (responses w rid) @ [c]\<rparr>)\<rparr>)"
  by (simp add: res_write_def)

lemma sendEvent_ok:
  "\<not> broken (responses w rid) \<Longrightarrow>
     sendEvent rid ev d w = w\<lparr>responses :=
        (responses w)(rid := (responses w rid)\<lparr>written :=
           written (responses w rid) @ [EventLine ev, DataLine d]\<rparr>)\<rparr>"
  by (simp add: sendEvent_def writeSafe_def res_write_def)

text \<open>
  C7 (amended). An observer that attaches, on a writable connection, to a job whose status
  is already terminal is sent the reconnect hint, exactly one progress event (the snapshot
  of the job) and then exactly one terminal event; the connection is ended and the
  observer is not added to the registry.
\<close>

theorem attach_to_terminal_job:
  assumes id_ok: "jid \<noteq> []" "isValidObjectId e jid"
      and found: "Job_findById e w jid = Inr (Some job)"
      and terminal: "isTerminal (status job)"
      and writable: "\<not> broken (responses w rid)"
  shows "\<exists>w1. streamJob e (Some jid) rid w = (Inr (), w1)
           \<and> written (responses w1 rid) = written (responses w rid) @
               [RetryHint 2000,
                EventLine ''progress'', DataLine (toProgressPayload jid job),
                EventLine ''done'', DataLine (DonePayload jid (status job))]
           \<and> events_of [RetryHint 2000,
                EventLine ''progress'', DataLine (toProgressPayload jid job),
                EventLine ''done'', DataLine (DonePayload jid (status job))]
               = [(''progress'', toProgressPayload jid job),
                  (''done'', DonePayload jid (status job))]
           \<and> ended (responses w1 rid)
           \<and> clientsByJobId w1 = clientsByJobId w"
proof -
  let ?w0 = "sse_headers rid w"
  have b0: "\<not> broken (responses ?w0 rid)" using writable by (simp add: sse_headers_def)
  have wr0: "written (responses ?w0 rid) = written (responses w rid)"
    by (simp add: sse_headers_def)
  obtain w1 where w1: "res_write rid (RetryHint 2000) ?w0 = (Inr (), w1)"
    and w1r: "written (responses w1 rid) = written (responses w rid) @ [RetryHint 2000]"
    and w1b: "\<not> broken (responses w1 rid)"
    and w1j: "jobs w1 = jobs w" and w1c: "clientsByJobId w1 = clientsByJobId w"
    using b0 wr0 by (simp add: res_write_ok sse_headers_def)
  have f1: "Job_findById e w1 jid = Inr (Some job)"
    using found Job_findById_jobs [OF w1j] by simp
  let ?w2 = "sendEvent rid ''progress'' (toProgressPayload jid job) w1"
  have w2: "written (responses ?w2 rid) = written (responses w rid) @
       [RetryHint 2000, EventLine ''progress'', DataLine (toProgressPayload jid job)]"
    and w2b: "\<not> broken (responses ?w2 rid)"
    and w2c: "clientsByJobId ?w2 = clientsByJobId w"
    using w1r w1b w1c by (simp_all add: sendEvent_ok)
  let ?w3 = "res_end rid (sendEvent rid ''done'' (DonePayload jid (status job)) ?w2)"
  have run: "streamJob e (Some jid) rid w = (Inr (), ?w3)"
    using id_ok w1 f1 terminal by (simp add: streamJob_def Let_def)
  have "written (responses ?w3 rid) = written (responses w rid) @
               [RetryHint 2000,
                EventLine ''progress'', DataLine (toProgressPayload jid job),
                EventLine ''done'', DataLine (DonePayload jid (status job))]"
    using w2 w2b by (simp add: sendEvent_ok [OF w2b] res_end_def)
  moreover have "ended (responses ?w3 rid)" by (simp add: res_end_def)
  moreover have "clientsByJobId ?w3 = clientsByJobId w"
    using w2c by (simp add: sendEvent_ok [OF w2b] res_end_def)
  ultimately show ?thesis using run by simp
qed

theorem attach_to_terminal_job_witness:
  "events_of (written (responses (snd (streamJob env0 (Some jid1) 0 world_done)) 0))
     = [(''progress'', toProgressPayload jid1 job_done), (''done'', DonePayload jid1 completed)]
   \<and> ended (responses (snd (streamJob env0 (Some jid1) 0 world_done)) 0)
   \<and> clientsByJobId (snd (streamJob env0 (Some jid1) 0 world_done)) jid1 = None"
proof -
  have a: "jid1 \<noteq> []" "isValidObjectId env0 jid1"
    by (simp_all add: jid1_def env0_def)
  have f: "Job_findById env0 world_done jid1 = Inr (Some job_done)"
    by (simp add: Job_findById_def stored_job_def env0_def jid1_def world_done_def world0_def
        job_done_def)
  have t: "isTerminal (status job_done)" "status job_done = completed"
    by (simp_all add: isTerminal_def job_done_def)
  have w: "\<not> broken (responses world_done 0)" "written (responses world_done 0) = []"
      "clientsByJobId world_done = (\<lambda>j. None)"
    by (simp_all add: world_done_def world0_def response0_def)
  from attach_to_terminal_job [OF a f t(1) w(1)] t(2) w(2,3)
  show ?thesis by auto
qed

theorem attach_receives_progress_counterexample:
  "filter (\<lambda>ev. fst ev = ''progress'')
     (events_of (written (responses (snd (streamJob env0 (Some jid1) 0 world_done)) 0))) \<noteq> []"
  by code_simp

section \<open>What each operation leaves unchanged\<close>

lemma fold_frame: "(\<And>x v. F (g x v) = F v) \<Longrightarrow> F (fold g xs w) = F w"
  by (induction xs arbitrary: w) auto

lemma writeSafe_frame:
  "jobs (snd (writeSafe rid c w)) = jobs w"
  "customers (snd (writeSafe rid c w)) = customers w"
  "files (snd (writeSafe rid c w)) = files w"
  "ops (snd (writeSafe rid c w)) = ops w"
  "saved (snd (writeSafe rid c w)) = saved w"
  "published (snd (writeSafe rid c w)) = published w"
  "clientsByJobId (snd (writeSafe rid c w)) = clientsByJobId w"
  by (simp_all add: writeSafe_def res_write_def)

lemma sendEvent_frame:
  "jobs (sendEvent rid ev d w) = jobs w"
  "customers (sendEvent rid ev d w) = customers w"
  "files (sendEvent rid ev d w) = files w"
  "ops (sendEvent rid ev d w) = ops w"
  "saved (sendEvent rid ev d w) = saved w"
  "published (sendEvent rid ev d w) = published w"
  "clientsByJobId (sendEvent rid ev d w) = clientsByJobId w"
  by (simp_all add: sendEvent_def writeSafe_frame)

lemma broadcast_step_frame:
  "jobs (case writeSafe rid c v of (False, v1) \<Rightarrow> v1 | (True, v1) \<Rightarrow> snd (writeSafe rid c' v1)) = jobs v"
  "customers (case writeSafe rid c v of (False, v1) \<Rightarrow> v1 | (True, v1) \<Rightarrow> snd (writeSafe rid c' v1)) = customers v"
  "files (case writeSafe rid c v of (False, v1) \<Rightarrow> v1 | (True, v1) \<Rightarrow> snd (writeSafe rid c' v1)) = files v"
  "ops (case writeSafe rid c v of (False, v1) \<Rightarrow> v1 | (True, v1) \<Rightarrow> snd (writeSafe rid c' v1)) = ops v"
  "saved (case writeSafe rid c v of (False, v1) \<Rightarrow> v1 | (True, v1) \<Rightarrow> snd (writeSafe rid c' v1)) = saved v"
  "published (case writeSafe rid c v of (False, v1) \<Rightarrow> v1 | (True, v1) \<Rightarrow> snd (writeSafe rid c' v1)) = published v"
  by (simp_all add: writeSafe_def res_write_def)

lemma broadcast_frame:
  "jobs (broadcast jid ev d w) = jobs w"
  "customers (broadcast jid ev d w) = customers w"
  "files (broadcast jid ev d w) = files w"
  "ops (broadcast jid ev d w) = ops w"
  "saved (broadcast jid ev d w) = saved w"
  "published (broadcast jid ev d w) = published w @ [(jid, ev, d)]"
  by (simp_all add: broadcast_def Let_def fold_frame broadcast_step_frame split: option.splits)

lemma broadcastAndClose_frame:
  "jobs (broadcastAndClose jid ev d w) = jobs w"
  "customers (broadcastAndClose jid ev d w) = customers w"
  "files (broadcastAndClose jid ev d w) = files w"
  "ops (broadcastAndClose jid ev d w) = ops w"
  "saved (broadcastAndClose jid ev d w) = saved w"
  "published (broadcastAndClose jid ev d w) = published w @ [(jid, ev, d)]"
  by (simp_all add: broadcastAndClose_def Let_def fold_frame sendEvent_frame res_end_def
      split: option.splits)

lemma find_upsert:
  "find (\<lambda>j. job_id j = k) (upsert doc js) =
     (if k = job_id doc then Some doc else find (\<lambda>j. job_id j = k) js)"
proof -
  have a: "find (\<lambda>j. job_id j = k) (js @ [doc]) =
      (case find (\<lambda>j. job_id j = k) js of Some j \<Rightarrow> Some j
       | None \<Rightarrow> if job_id doc = k then Some doc else None)" for js
    by (induction js) auto
  have b: "find (\<lambda>j. job_id j = k) (map (\<lambda>j. if job_id j = job_id doc then doc else j) js) =
      (if k = job_id doc then (case find (\<lambda>j. job_id j = k) js of None \<Rightarrow> None | Some _ \<Rightarrow> Some doc)
       else find (\<lambda>j. job_id j = k) js)" for js
    by (induction js) auto
  show ?thesis
  proof (cases "find (\<lambda>j. job_id j = job_id doc) js")
    case None
    then show ?thesis by (auto simp: upsert_def a split: option.splits)
  next
    case (Some x)
    then show ?thesis using b [of js] by (auto simp: upsert_def)
  qed
qed

lemma set_upsert: "set (upsert doc js) \<subseteq> insert doc (set js)"
  by (auto simp: upsert_def)

lemma job_save_cases:
  "job_save e doc w =
     (case db_fault e (ops w) of
        Some err \<Rightarrow> (Inl err, w\<lparr>ops := ops w + 1\<rparr>)
      | None \<Rightarrow> (Inr (), w\<lparr>ops := ops w + 1, jobs := upsert (persisted doc) (jobs w),
                            saved := saved w @ [persisted doc]\<rparr>))"
  by (simp add: job_save_def Let_def split: option.splits)

lemma handleRow_frame:
  assumes "handleRow e options maxErr raw cur p w = (p1, w1)"
  shows "jobs w1 = jobs w" "saved w1 = saved w" "published w1 = published w"
    "files w1 = files w" "clientsByJobId w1 = clientsByJobId w" "responses w1 = responses w"
    "ops w \<le> ops w1"
  using assms
  by (auto simp: handleRow_def Let_def split: sum.splits prod.splits dest!: Customer_create_cases)

lemma handleRow_counters:
  assumes "handleRow e options maxErr raw cur p w = (p1, w1)"
  shows "totalRows p1 = totalRows p" "processedRows p1 = processedRows p + 1"
    "successCount p1 + failedCount p1 = successCount p + failedCount p + 1"
    "errors p1 = errors p \<or>
       (int (length (errors p)) < maxErr \<and>
          (\<exists>m r. errors p1 = errors p @ [\<lparr>rowNumber = cur, message = m, row = r\<rparr>]))"
    "successCount p1 = successCount p \<or> failedCount p1 = failedCount p"
  using assms
  by (auto simp: handleRow_def Let_def split: sum.splits prod.splits if_splits)

section \<open>Invariants of the File Importer\<close>

lemma emitProgress_invariant:
  assumes cb: "\<And>f. onProgress options = Some f \<Longrightarrow> Q (snd (f p s))"
      and "Q s"
  shows "Q (snd (emitProgress options every force p s))"
  using assms by (auto simp: emitProgress_def split: option.splits)

lemma forAwait_invariant:
  assumes row: "\<And>raw cur p w. 1 \<le> cur \<Longrightarrow> P p \<Longrightarrow> P (fst (handleRow e options maxErr raw cur p w))"
      and cb: "\<And>f p s. onProgress options = Some f \<Longrightarrow> P p \<Longrightarrow> Q s \<Longrightarrow> Q (snd (f p s))"
      and frame: "\<And>raw cur p c w. Q (c, w) \<Longrightarrow> Q (c, snd (handleRow e options maxErr raw cur p w))"
  shows "P p \<Longrightarrow> Q s \<Longrightarrow> 1 \<le> cur \<Longrightarrow>
         forAwait e options every maxErr rows fault p cur s = (r, p', cur', s') \<Longrightarrow> P p' \<and> Q s'"
proof (induction rows arbitrary: p s cur)
  case Nil
  then show ?case by (auto split: option.splits)
next
  case (Cons raw rows)
  obtain p1 w1 where h: "handleRow e options maxErr raw cur p (snd s) = (p1, w1)"
    by (cases "handleRow e options maxErr raw cur p (snd s)")
  have P1: "P p1" using row [OF Cons.prems(3) Cons.prems(1), of raw "snd s"] h by simp
  have "Q (fst s, snd s)" using Cons.prems(2) by simp
  from frame [OF this, of raw cur p] h have Q1: "Q (fst s, w1)" by simp
  obtain r1 s1 where em: "emitProgress options every False p1 (fst s, w1) = (r1, s1)"
    by (cases "emitProgress options every False p1 (fst s, w1)")
  have Q2: "Q s1"
    using emitProgress_invariant [of options Q p1 "(fst s, w1)" every False] cb [OF _ P1 Q1] Q1 em
    by simp
  show ?case
  proof (cases r1)
    case (Inl err)
    with Cons.prems(4) h em P1 Q2 show ?thesis by auto
  next
    case (Inr u)
    with Cons.prems(4) h em
    have "forAwait e options every maxErr rows fault p1 (cur + 1) s1 = (r, p', cur', s')" by simp
    from Cons.IH [OF P1 Q2 _ this] show ?thesis by simp
  qed
qed

lemma processFile_try_invariant:
  assumes row: "\<And>raw cur p w. 1 \<le> cur \<Longrightarrow> P p \<Longrightarrow> P (fst (handleRow e options maxErr raw cur p w))"
      and cb: "\<And>f p s. onProgress options = Some f \<Longrightarrow> P p \<Longrightarrow> Q s \<Longrightarrow> Q (snd (f p s))"
      and frame: "\<And>raw cur p c w. Q (c, w) \<Longrightarrow> Q (c, snd (handleRow e options maxErr raw cur p w))"
      and P0: "P p" and Q0: "Q s"
      and run: "processFile_try e options every maxErr rows fault p s = (r, p', s')"
  shows "P p' \<and> Q s'"
proof -
  obtain r2 p2 c2 s2 where fa: "forAwait e options every maxErr rows fault p 1 s = (r2, p2, c2, s2)"
    by (cases "forAwait e options every maxErr rows fault p 1 s")
  have "P p2 \<and> Q s2"
  proof (rule forAwait_invariant [where P = P and Q = Q and e = e and options = options
        and maxErr = maxErr and p = p and s = s and cur = 1])
    show "forAwait e options every maxErr rows fault p 1 s = (r2, p2, c2, s2)" by (rule fa)
  qed (use row cb frame P0 Q0 in auto)
  then have P2: "P p2" and Q2: "Q s2" by simp_all
  obtain r3 s3 where em3: "emitProgress options every True p2 s2 = (r3, s3)"
    by (cases "emitProgress options every True p2 s2")
  have Q3: "Q s3"
    using emitProgress_invariant [of options Q p2 s2 every True] cb [OF _ P2 Q2] Q2 em3 by simp
  from run fa em3 have "p' = p2 \<and> (s' = s2 \<or> s' = s3)"
    by (auto simp: processFile_try_def split: completion.splits sum.splits)
  with P2 Q2 Q3 show ?thesis by auto
qed

lemma processFile_invariant:
  fixes options :: "'c ProcessFileOptions"
  defines "maxErr \<equiv> (case maxErrors options of None \<Rightarrow> DEFAULT_MAX_ERRORS | Some n \<Rightarrow> n)"
  assumes init: "\<And>n. P \<lparr> totalRows = n, processedRows = 0, successCount = 0, failedCount = 0,
                          errors = [], lastError = None \<rparr>"
      and row: "\<And>raw cur p w. 1 \<le> cur \<Longrightarrow> P p \<Longrightarrow> P (fst (handleRow e options maxErr raw cur p w))"
      and last: "\<And>p m. P p \<Longrightarrow> P (p\<lparr>lastError := m\<rparr>)"
      and cb: "\<And>f p s. onProgress options = Some f \<Longrightarrow> P p \<Longrightarrow> Q s \<Longrightarrow> Q (snd (f p s))"
      and frame: "\<And>raw cur p c w. Q (c, w) \<Longrightarrow> Q (c, snd (handleRow e options maxErr raw cur p w))"
      and start: "Q s"
      and run: "processFile e options s = (r, s')"
  shows "Q s' \<and> (\<forall>p. r = Resolved p \<longrightarrow> P p)"
proof (cases "countRows e (snd s) (filePath options)")
  case (Uncaught err)
  with run start show ?thesis by (auto simp: processFile_def)
next
  case (Rejected err)
  with run start show ?thesis by (auto simp: processFile_def)
next
  case (Resolved counted)
  define every where "every = (case progressEvery options of None \<Rightarrow> DEFAULT_PROGRESS_EVERY | Some n \<Rightarrow> n)"
  define p0 where "p0 = \<lparr> totalRows = counted, processedRows = 0, successCount = 0,
                           failedCount = 0, errors = [], lastError = None \<rparr>"
  define stream where "stream = csv_stream e (snd s) (filePath options)"
  have P0: "P p0" unfolding p0_def by (rule init)
  obtain r1 s1 where em1: "emitProgress options every True p0 s = (r1, s1)"
    by (cases "emitProgress options every True p0 s")
  have Q1: "Q s1"
    using emitProgress_invariant [of options Q p0 s every True] cb [OF _ P0 start] start em1 by simp
  show ?thesis
  proof (cases r1)
    case (Inl err)
    with run Resolved em1 Q1 show ?thesis
      by (auto simp: processFile_def Let_def every_def p0_def maxErr_def)
  next
    case r1: (Inr u)
    obtain r2 p2 s4 where body: "processFile_try e options every maxErr (fst stream) (snd stream)
          p0 s1 = (r2, p2, s4)"
      by (cases "processFile_try e options every maxErr (fst stream) (snd stream) p0 s1")
    have "P p2 \<and> Q s4"
    proof (rule processFile_try_invariant [where P = P and Q = Q and e = e
          and options = options and maxErr = maxErr and p = p0 and s = s1])
      show "processFile_try e options every maxErr (fst stream) (snd stream) p0 s1 = (r2, p2, s4)"
        by (rule body)
    qed (use row cb frame P0 Q1 in auto)
    then have P2: "P p2" and Q4: "Q s4" by simp_all
    have unf: "processFile e options s =
        (case r2 of
           Uncaught err \<Rightarrow> (Uncaught err, s4)
         | Resolved _ \<Rightarrow> (Resolved p2, s4)
         | Rejected err \<Rightarrow>
             (let p1 = p2\<lparr>lastError := (if instanceof_Error err then err_message err
                                          else Some ''unknown error'')\<rparr>
              in case emitProgress options every True p1 s4 of
                   (Inl err2, s5) \<Rightarrow> (Rejected err2, s5)
                 | (Inr _, s5) \<Rightarrow> (Rejected err, s5)))"
      using Resolved em1 r1 body
      by (simp add: processFile_def Let_def every_def [symmetric] p0_def [symmetric]
          maxErr_def [symmetric] stream_def [symmetric] split: completion.splits)
    show ?thesis
    proof (cases r2)
      case (Resolved u)
      with run unf P2 Q4 show ?thesis by auto
    next
      case (Uncaught err)
      with run unf Q4 show ?thesis by auto
    next
      case (Rejected err)
      define p5 where "p5 = p2\<lparr>lastError := (if instanceof_Error err then err_message err
                                    else Some ''unknown error'')\<rparr>"
      have P5: "P p5" unfolding p5_def using P2 by (rule last)
      obtain r5 s5 where em5: "emitProgress options every True p5 s4 = (r5, s5)"
        by (cases "emitProgress options every True p5 s4")
      have Q5: "Q s5"
        using emitProgress_invariant [of options Q p5 s4 every True] cb [OF _ P5 Q4] Q4 em5 by simp
      from run unf Rejected em5 have "s' = s5 \<and> (\<exists>x. r = Rejected x)"
        by (auto simp: Let_def p5_def [symmetric] split: sum.splits)
      with Q5 show ?thesis by auto
    qed
  qed
qed

section \<open>Documents saved by a run\<close>

lemma progress_of_simps:
  "progress_of (job\<lparr>status := st\<rparr>) = progress_of job"
  "progress_of (job\<lparr>startedAt := a\<rparr>) = progress_of job"
  "progress_of (job\<lparr>completedAt := b\<rparr>) = progress_of job"
  "progress_of (job\<lparr>lastError := m\<rparr>) = (progress_of job)\<lparr>lastError := m\<rparr>"
  "progress_of (job\<lparr> totalRows := totalRows p, processedRows := processedRows p,
       successCount := successCount p, failedCount := failedCount p,
       errors := errors p, lastError := lastError p \<rparr>) = p"
  by (simp_all add: progress_of_def)

lemma list_all_upsert: "G doc \<Longrightarrow> list_all G js \<Longrightarrow> list_all G (upsert doc js)"
  using set_upsert [of doc js] by (auto simp: list_all_iff)

lemma progress_of_persisted: "progress_of (persisted job) = (progress_of job)\<lparr>lastError := None\<rparr>"
  by (simp add: progress_of_def persisted_def)

lemma job_save_saves_ok:
  assumes last: "\<And>p m. P p \<Longrightarrow> P (p\<lparr>lastError := m\<rparr>)"
      and "saves_ok P n (job, v)" and "job_save e job v = (r, v1)"
  shows "saves_ok P n (job, v1)"
proof -
  have "P (progress_of job)" using assms(2) by (simp add: saves_ok_def)
  then have "P (progress_of (persisted job))" by (simp add: progress_of_persisted last)
  with assms(2,3) show ?thesis
    by (auto simp: saves_ok_def job_save_cases list_all_upsert split: option.splits)
qed

lemma persistProgress_saves_ok:
  assumes last: "\<And>p m. P p \<Longrightarrow> P (p\<lparr>lastError := m\<rparr>)"
      and "P p" and "saves_ok P n s"
  shows "saves_ok P n (snd (persistProgress e p s))"
proof -
  define job where "job = (fst s)\<lparr> totalRows := totalRows p, processedRows := processedRows p,
       successCount := successCount p, failedCount := failedCount p,
       errors := errors p, lastError := lastError p \<rparr>"
  have "progress_of job = p" unfolding job_def by (rule progress_of_simps)
  with assms(2,3) have q: "saves_ok P n (job, snd s)" by (simp add: saves_ok_def)
  obtain r v1 where sv: "job_save e job (snd s) = (r, v1)" by (cases "job_save e job (snd s)")
  from job_save_saves_ok [where P = P, OF last q sv] have "saves_ok P n (job, v1)" .
  then have "saves_ok P n (job, broadcast (job_id job) ''progress'' (toProgress job) v1)"
    by (simp add: saves_ok_def broadcast_frame)
  with \<open>saves_ok P n (job, v1)\<close> sv show ?thesis
    by (cases r) (simp_all add: persistProgress_def Let_def job_def [symmetric])
qed

lemma handleRow_saves_ok:
  assumes "saves_ok P n (c, w)"
  shows "saves_ok P n (c, snd (handleRow e options maxErr raw cur p w))"
proof -
  obtain p1 w1 where h: "handleRow e options maxErr raw cur p w = (p1, w1)"
    by (cases "handleRow e options maxErr raw cur p w")
  from handleRow_frame [OF h] assms h show ?thesis by (simp add: saves_ok_def)
qed

lemma processCsvJob_try_saves_ok:
  assumes init: "\<And>n. P \<lparr> totalRows = n, processedRows = 0, successCount = 0, failedCount = 0,
                          errors = [], lastError = None \<rparr>"
      and row: "\<And>(options :: JobDoc ProcessFileOptions) raw cur p w.
                  1 \<le> cur \<Longrightarrow> P p \<Longrightarrow> P (fst (handleRow e options DEFAULT_MAX_ERRORS raw cur p w))"
      and last: "\<And>p m. P p \<Longrightarrow> P (p\<lparr>lastError := m\<rparr>)"
      and start: "saves_ok P n s"
      and run: "processCsvJob_try e jid path s = (r, s1)"
  shows "saves_ok P n s1"
proof -
  let ?options = "\<lparr> jobId = jid, filePath = path, progressEvery = None, maxErrors = None,
               onProgress = Some (persistProgress e) \<rparr>"
  obtain r2 s2 where pf: "processFile e ?options s = (r2, s2)"
    by (cases "processFile e ?options s")
  have inv: "saves_ok P n s2 \<and> (\<forall>p. r2 = Resolved p \<longrightarrow> P p)"
  proof (rule processFile_invariant [where P = P and Q = "saves_ok P n" and e = e
        and options = ?options and s = s])
    show "processFile e ?options s = (r2, s2)" by (rule pf)
  next
    fix f p s'
    assume "onProgress ?options = Some f" "P p" "saves_ok P n s'"
    then show "saves_ok P n (snd (f p s'))"
      using persistProgress_saves_ok [where P = P and p = p and n = n and s = s' and e = e,
          OF last]
      by auto
  qed (use init row last start in \<open>auto simp: handleRow_saves_ok\<close>)
  show ?thesis
  proof (cases r2)
    case (Rejected err)
    with run pf inv show ?thesis by (simp add: processCsvJob_try_def)
  next
    case (Uncaught err)
    with run pf inv show ?thesis by (simp add: processCsvJob_try_def)
  next
    case (Resolved result)
    with inv have Pr: "P result" and Q2: "saves_ok P n s2" by simp_all
    define job where "job = (fst s2)\<lparr>status := completed, completedAt := Some (now e)\<rparr>"
    have Q3: "saves_ok P n (job, snd s2)"
      using Q2 by (simp add: saves_ok_def job_def progress_of_simps)
    from persistProgress_saves_ok [where P = P, OF last Pr Q3, of e]
    have Q4: "saves_ok P n (snd (persistProgress e result (job, snd s2)))" .
    obtain r4 s4 where pp: "persistProgress e result (job, snd s2) = (r4, s4)"
      by (cases "persistProgress e result (job, snd s2)")
    with Q4 have Q4': "saves_ok P n s4" by simp
    then have "saves_ok P n (fst s4, broadcastAndClose jid ''done'' (DonePayload jid completed) (snd s4))"
      by (simp add: saves_ok_def broadcastAndClose_frame)
    with run pf Resolved pp Q4' show ?thesis
      by (cases r4) (auto simp: processCsvJob_try_def Let_def job_def [symmetric])
  qed
qed

lemma processCsvJob_catch_saves_ok:
  assumes last: "\<And>p m. P p \<Longrightarrow> P (p\<lparr>lastError := m\<rparr>)"
      and start: "saves_ok P n s"
      and run: "processCsvJob_catch e jid err s = (err2, s1)"
  shows "saves_ok P n s1"
proof -
  define job where "job = (fst s)\<lparr> status := failed, completedAt := Some (now e),
                          lastError := Some (case err_message err of
                                               None \<Rightarrow> ''job failed unexpectedly''
                                             | Some m \<Rightarrow> m) \<rparr>"
  have Q1: "saves_ok P n (job, snd s)"
    using start last by (simp add: saves_ok_def job_def progress_of_simps)
  obtain r v1 where sv: "job_save e job (snd s) = (r, v1)" by (cases "job_save e job (snd s)")
  from job_save_saves_ok [where P = P, OF last Q1 sv] have Q2: "saves_ok P n (job, v1)" .
  then have "saves_ok P n (job, broadcastAndClose jid ''done'' (DonePayload jid failed)
                (broadcast jid ''progress'' (toProgress job) v1))"
    by (simp add: saves_ok_def broadcastAndClose_frame broadcast_frame)
  with run sv Q2 show ?thesis
    by (cases r) (auto simp: processCsvJob_catch_def Let_def job_def [symmetric])
qed

lemma processCsvJob_saves_ok:
  assumes init: "\<And>n. P \<lparr> totalRows = n, processedRows = 0, successCount = 0, failedCount = 0,
                          errors = [], lastError = None \<rparr>"
      and row: "\<And>(options :: JobDoc ProcessFileOptions) raw cur p w.
                  1 \<le> cur \<Longrightarrow> P p \<Longrightarrow> P (fst (handleRow e options DEFAULT_MAX_ERRORS raw cur p w))"
      and last: "\<And>p m. P p \<Longrightarrow> P (p\<lparr>lastError := m\<rparr>)"
      and stored: "list_all (\<lambda>d. P (progress_of d)) (jobs w)"
      and run: "processCsvJob e jid path w = (r, w1)"
  shows "length (saved w) \<le> length (saved w1)
       \<and> list_all (\<lambda>d. P (progress_of d)) (drop (length (saved w)) (saved w1))
       \<and> list_all (\<lambda>d. P (progress_of d)) (jobs w1)"
proof (cases "Job_findById e w jid")
  case (Inl err)
  with run stored show ?thesis by (auto simp: processCsvJob_def)
next
  case (Inr found)
  show ?thesis
  proof (cases found)
    case None
    with Inr run stored show ?thesis by (auto simp: processCsvJob_def safeDelete_files)
  next
    case (Some job0)
    with Inr have "job0 \<in> set (jobs w)"
      by (auto simp: Job_findById_Inr stored_job_def find_Some_iff)
    with stored have P0: "P (progress_of job0)" by (auto simp: list_all_iff)
    define job where "job = job0\<lparr> status := processing, startedAt := Some (now e),
                             completedAt := None, lastError := None \<rparr>"
    define n where "n = length (saved w)"
    have Q0: "saves_ok P n (job, w)"
      using P0 stored last by (simp add: saves_ok_def job_def progress_of_simps n_def)
    obtain r1 v1 where sv: "job_save e job w = (r1, v1)" by (cases "job_save e job w")
    from job_save_saves_ok [where P = P, OF last Q0 sv] have Q1: "saves_ok P n (job, v1)" .
    have fin: "saves_ok P n (j, v) \<Longrightarrow> length (saved w) \<le> length (saved v)
         \<and> list_all (\<lambda>d. P (progress_of d)) (drop (length (saved w)) (saved v))
         \<and> list_all (\<lambda>d. P (progress_of d)) (jobs v)" for j v
      by (simp add: saves_ok_def n_def)
    show ?thesis
    proof (cases r1)
      case (Inl err)
      with run Inr Some sv fin [OF Q1] show ?thesis
        by (auto simp: processCsvJob_def Let_def job_def [symmetric])
    next
      case r1: (Inr u)
      define s0 where "s0 = (job, broadcast jid ''progress'' (toProgress job) v1)"
      have Q2: "saves_ok P n s0" using Q1 by (simp add: saves_ok_def s0_def broadcast_frame)
      obtain r3 s3 where tr: "processCsvJob_try e jid path s0 = (r3, s3)"
        by (cases "processCsvJob_try e jid path s0")
      from processCsvJob_try_saves_ok [where P = P, OF init row last Q2 tr]
      have Q3: "saves_ok P n s3" by simp
      show ?thesis
      proof (cases r3)
        case (Resolved u')
        have "saves_ok P n (fst s3, safeDelete path (snd s3))"
          using Q3 by (simp add: saves_ok_def safeDelete_files)
        from fin [OF this] run Inr Some sv r1 tr Resolved show ?thesis
          by (auto simp: processCsvJob_def Let_def job_def [symmetric] s0_def [symmetric])
      next
        case (Uncaught err)
        have "saves_ok P n (fst s3, snd s3)" using Q3 by simp
        from fin [OF this] run Inr Some sv r1 tr Uncaught show ?thesis
          by (auto simp: processCsvJob_def Let_def job_def [symmetric] s0_def [symmetric])
      next
        case (Rejected err)
        obtain err2 s4 where ca: "processCsvJob_catch e jid err s3 = (err2, s4)"
          by (cases "processCsvJob_catch e jid err s3")
        from processCsvJob_catch_saves_ok [where P = P, OF last Q3 ca]
        have "saves_ok P n s4" by simp
        then have "saves_ok P n (fst s4, safeDelete path (snd s4))"
          by (simp add: saves_ok_def safeDelete_files)
        from fin [OF this] run Inr Some sv r1 tr Rejected ca show ?thesis
          by (auto simp: processCsvJob_def Let_def job_def [symmetric] s0_def [symmetric])
      qed
    qed
  qed
qed

lemma counters_ok_progress_of: "counters_ok (progress_of d) = counters_ok d"
  by (simp add: counters_ok_def progress_of_def)

text \<open>
  C1. When every stored job satisfies \<open>processedRows = successCount + failedCount\<close>
  (as a new pending job does), every document \<open>processCsvJob\<close> saves, and every
  stored job afterwards, satisfies it too. Each row, before the progress is emitted,
  increments \<open>processedRows\<close> and exactly one of \<open>successCount\<close> and \<open>failedCount\<close>.
\<close>

theorem counters_at_every_save:
  assumes stored: "\<forall>d\<in>set (jobs w). counters_ok d"
      and run: "processCsvJob e jid path w = (r, w1)"
      and step: "handleRow e' options maxErr raw cur p v = (p1, v1)"
  shows "(\<forall>d\<in>set (drop (length (saved w)) (saved w1)). counters_ok d)
       \<and> (\<forall>d\<in>set (jobs w1). counters_ok d)
       \<and> processedRows p1 = processedRows p + 1
       \<and> (if successCount p1 = successCount p then failedCount p1 = failedCount p + 1
           else successCount p1 = successCount p + 1 \<and> failedCount p1 = failedCount p)"
proof -
  from handleRow_counters [OF step]
  have row: "processedRows p1 = processedRows p + 1
       \<and> (if successCount p1 = successCount p then failedCount p1 = failedCount p + 1
           else successCount p1 = successCount p + 1 \<and> failedCount p1 = failedCount p)"
    by auto
  have "length (saved w) \<le> length (saved w1)
       \<and> list_all (\<lambda>d. counters_ok (progress_of d)) (drop (length (saved w)) (saved w1))
       \<and> list_all (\<lambda>d. counters_ok (progress_of d)) (jobs w1)"
  proof (rule processCsvJob_saves_ok [where P = counters_ok and e = e])
    show "processCsvJob e jid path w = (r, w1)" by (rule run)
  next
    fix options :: "JobDoc ProcessFileOptions" and raw cur p v
    assume "counters_ok (p :: CsvProgress)"
    then show "counters_ok (fst (handleRow e options DEFAULT_MAX_ERRORS raw cur p v))"
      using handleRow_counters [OF prod.collapse [symmetric],
          where e = e and options = options and maxErr = DEFAULT_MAX_ERRORS and raw = raw
            and cur = cur and p = p and w = v]
      by (simp add: counters_ok_def)
  qed (use stored in \<open>auto simp: counters_ok_def progress_of_def list_all_iff\<close>)
  then have "(\<forall>d\<in>set (drop (length (saved w)) (saved w1)). counters_ok d)
       \<and> (\<forall>d\<in>set (jobs w1). counters_ok d)"
    by (simp add: counters_ok_progress_of list_all_iff)
  with row show ?thesis by blast
qed

theorem counters_at_every_save_witness:
  "list_all counters_ok (jobs world_pending)
   \<and> list_all counters_ok (saved (snd (processCsvJob env0 jid1 ''up/a.csv'' world_pending)))
   \<and> list_all counters_ok (jobs (snd (processCsvJob env0 jid1 ''up/a.csv'' world_pending)))
   \<and> processedRows (fst (handleRow env0 options0 50 row_ann 1 progress0 world0))
        = processedRows progress0 + 1"
proof -
  have h: "\<forall>d\<in>set (jobs world_pending). counters_ok d"
    by (simp add: world_pending_def job_pending_def counters_ok_def)
  have s: "saved world_pending = []"
    by (simp add: world_pending_def world_upload_def world0_def)
  from counters_at_every_save [where e = env0 and jid = jid1 and path = "''up/a.csv''"
      and w = world_pending and e' = env0 and options = options0 and maxErr = 50
      and raw = row_ann and cur = 1 and p = progress0 and v = world0,
      OF h prod.collapse [symmetric] prod.collapse [symmetric]] h s
  show ?thesis by (simp add: list_all_iff)
qed

lemma createPendingJob_counters_ok:
  assumes "\<forall>d\<in>set (jobs w). counters_ok d"
      and "createPendingJob e new_id fname w = (r, w1)"
  shows "(\<forall>d\<in>set (drop (length (saved w)) (saved w1)). counters_ok d)
       \<and> (\<forall>d\<in>set (jobs w1). counters_ok d)"
  using assms set_upsert
  by (fastforce simp: createPendingJob_def job_save_cases counters_ok_def persisted_def Let_def
      split: option.splits)


text \<open>
  C5. With the default cap of 50, every document \<open>processCsvJob\<close> saves and every
  stored job afterwards has at most 50 error records (when the stored jobs had before).
  A row appends an error record only while the list is shorter than the cap, and every
  failing row increments \<open>failedCount\<close>, whether its record is kept or not.
\<close>

theorem error_records_capped:
  assumes stored: "\<forall>d\<in>set (jobs w). length (errors d) \<le> 50"
      and run: "processCsvJob e jid path w = (r, w1)"
      and step: "handleRow e' options maxErr raw cur p v = (p1, v1)"
  shows "(\<forall>d\<in>set (drop (length (saved w)) (saved w1)). length (errors d) \<le> 50)
       \<and> (\<forall>d\<in>set (jobs w1). length (errors d) \<le> 50)
       \<and> (errors p1 = errors p
            \<or> (int (length (errors p)) < maxErr \<and> length (errors p1) = length (errors p) + 1))
       \<and> (if successCount p1 = successCount p then failedCount p1 = failedCount p + 1
           else failedCount p1 = failedCount p)"
proof -
  let ?P = "\<lambda>p :: CsvProgress. length (errors p) \<le> 50"
  have "length (saved w) \<le> length (saved w1)
       \<and> list_all (\<lambda>d. ?P (progress_of d)) (drop (length (saved w)) (saved w1))
       \<and> list_all (\<lambda>d. ?P (progress_of d)) (jobs w1)"
  proof (rule processCsvJob_saves_ok [where P = ?P and e = e])
    show "processCsvJob e jid path w = (r, w1)" by (rule run)
  next
    fix options :: "JobDoc ProcessFileOptions" and raw cur p v
    assume "length (errors (p :: CsvProgress)) \<le> 50"
    then show "length (errors (fst (handleRow e options DEFAULT_MAX_ERRORS raw cur p v))) \<le> 50"
      using handleRow_counters(4) [OF prod.collapse [symmetric],
          where e = e and options = options and maxErr = DEFAULT_MAX_ERRORS and raw = raw
            and cur = cur and p = p and w = v]
      by (auto simp: DEFAULT_MAX_ERRORS_def)
  qed (use stored in \<open>auto simp: progress_of_def list_all_iff\<close>)
  then have saves: "(\<forall>d\<in>set (drop (length (saved w)) (saved w1)). length (errors d) \<le> 50)
       \<and> (\<forall>d\<in>set (jobs w1). length (errors d) \<le> 50)"
    by (simp add: progress_of_def list_all_iff)
  from handleRow_counters [OF step]
  have "errors p1 = errors p
            \<or> (int (length (errors p)) < maxErr \<and> length (errors p1) = length (errors p) + 1)"
    and "if successCount p1 = successCount p then failedCount p1 = failedCount p + 1
           else failedCount p1 = failedCount p"
    by auto
  with saves show ?thesis by simp
qed

theorem error_records_capped_witness:
  "list_all (\<lambda>d. length (errors d) \<le> 50)
     (saved (snd (processCsvJob env0 jid1 ''up/a.csv'' world_pending)))
   \<and> failedCount (fst (handleRow env0 options0 1 [] 2 progress_full world0)) = 2
   \<and> length (errors (fst (handleRow env0 options0 1 [] 2 progress_full world0))) = 1"
proof -
  have h: "\<forall>d\<in>set (jobs world_pending). length (errors d) \<le> 50"
    by (simp add: world_pending_def job_pending_def)
  have s: "saved world_pending = []"
    by (simp add: world_pending_def world_upload_def world0_def)
  have f: "failedCount (fst (handleRow env0 options0 1 [] 2 progress_full world0)) = 2"
    by code_simp
  have l: "length (errors (fst (handleRow env0 options0 1 [] 2 progress_full world0))) = 1"
    by code_simp
  from error_records_capped [where e = env0 and jid = jid1 and path = "''up/a.csv''"
      and w = world_pending and e' = env0 and options = options0 and maxErr = 1
      and raw = "[]" and cur = 2 and p = progress_full and v = world0,
      OF h prod.collapse [symmetric] prod.collapse [symmetric]] s f l
  show ?thesis by (simp add: list_all_iff)
qed

section \<open>Terminal states of a run\<close>

lemma persisted_simps:
  "job_id (persisted d) = job_id d" "status (persisted d) = status d"
  "totalRows (persisted d) = totalRows d" "processedRows (persisted d) = processedRows d"
  "errors (persisted d) = errors d" "completedAt (persisted d) = completedAt d"
  by (simp_all add: persisted_def)

lemma stored_job_save:
  "job_save e doc w = (Inr u, w1) \<Longrightarrow>
     stored_job w1 jid = (if jid = job_id doc then Some (persisted doc) else stored_job w jid)"
  by (auto simp: job_save_cases stored_job_def find_upsert persisted_simps split: option.splits)

lemma job_save_failed:
  "job_save e doc w = (Inl err, w1) \<Longrightarrow> w1 = w\<lparr>ops := ops w + 1\<rparr> \<and> db_fault e (ops w) = Some err"
  by (auto simp: job_save_cases split: option.splits)

lemma job_save_ok:
  "job_save e doc w = (Inr u, w1) \<Longrightarrow>
     w1 = w\<lparr>ops := ops w + 1, jobs := upsert (persisted doc) (jobs w),
            saved := saved w @ [persisted doc]\<rparr>
     \<and> db_fault e (ops w) = None"
  by (auto simp: job_save_cases split: option.splits)

lemma persistProgress_in_progress:
  assumes "in_progress jid fs s"
  shows "in_progress jid fs (snd (persistProgress e p s))"
proof -
  define job where "job = (fst s)\<lparr> totalRows := totalRows p, processedRows := processedRows p,
       successCount := successCount p, failedCount := failedCount p,
       errors := errors p, lastError := lastError p \<rparr>"
  have j: "job_id job = jid" "status job = processing"
    using assms by (simp_all add: in_progress_def job_def)
  from assms have fl0: "files (snd s) = fs" and nc0: "stored_not_completed jid (snd s)"
    by (simp_all add: in_progress_def)
  obtain r v1 where sv: "job_save e job (snd s) = (r, v1)" by (cases "job_save e job (snd s)")
  show ?thesis
  proof (cases r)
    case (Inl err)
    with sv have sv': "job_save e job (snd s) = (Inl err, v1)" by simp
    then have pp: "persistProgress e p s = (Inl err, job, v1)"
      by (simp add: persistProgress_def Let_def job_def [symmetric])
    from job_save_failed [OF sv'] have v1: "v1 = (snd s)\<lparr>ops := ops (snd s) + 1\<rparr>" by simp
    have "files v1 = fs" using fl0 by (simp add: v1)
    moreover have "stored_not_completed jid v1"
      using nc0 by (simp add: v1 stored_not_completed_def stored_job_def)
    ultimately show ?thesis using j by (simp add: pp in_progress_def)
  next
    case (Inr u)
    with sv have sv': "job_save e job (snd s) = (Inr u, v1)" by simp
    then have pp: "persistProgress e p s =
        (Inr (), job, broadcast (job_id job) ''progress'' (toProgress job) v1)"
      by (simp add: persistProgress_def Let_def job_def [symmetric])
    from job_save_ok [OF sv'] have fl: "files v1 = files (snd s)" by simp
    from stored_job_save [OF sv', of jid] j have f: "stored_job v1 jid = Some (persisted job)"
      by simp
    have "stored_job (broadcast (job_id job) ''progress'' (toProgress job) v1) jid
            = Some (persisted job)"
      using f by (simp add: stored_job_def broadcast_frame)
    then have "stored_not_completed jid (broadcast (job_id job) ''progress'' (toProgress job) v1)"
      using j by (simp add: stored_not_completed_def persisted_simps)
    moreover have "files (broadcast (job_id job) ''progress'' (toProgress job) v1) = fs"
      using fl fl0 by (simp add: broadcast_frame)
    ultimately show ?thesis using j by (simp add: pp in_progress_def)
  qed
qed

lemma handleRow_in_progress:
  assumes "in_progress jid fs (c, w)"
  shows "in_progress jid fs (c, snd (handleRow e options maxErr raw cur p w))"
proof -
  obtain p1 w1 where h: "handleRow e options maxErr raw cur p w = (p1, w1)"
    by (cases "handleRow e options maxErr raw cur p w")
  from handleRow_frame [OF h] assms h show ?thesis
    by (simp add: in_progress_def stored_not_completed_def stored_job_def)
qed

lemma forAwait_count:
  "forAwait e options every maxErr rows fault p cur s = (Resolved u, p1, cur1, s1) \<Longrightarrow>
     fault = None \<and> processedRows p1 = processedRows p + length rows \<and> totalRows p1 = totalRows p"
proof (induction rows arbitrary: p cur s)
  case Nil
  then show ?case by (simp split: option.splits)
next
  case (Cons raw rows)
  obtain p2 w2 where h: "handleRow e options maxErr raw cur p (snd s) = (p2, w2)"
    by (cases "handleRow e options maxErr raw cur p (snd s)")
  obtain r3 s3 where em: "emitProgress options every False p2 (fst s, w2) = (r3, s3)"
    by (cases "emitProgress options every False p2 (fst s, w2)")
  from Cons.prems h em obtain u' where "r3 = Inr u'"
    and rec: "forAwait e options every maxErr rows fault p2 (cur + 1) s3
                = (Resolved u, p1, cur1, s1)"
    by (cases r3) auto
  from Cons.IH [OF rec] handleRow_counters(1,2) [OF h] show ?case by simp
qed

lemma processFile_try_count:
  assumes "processFile_try e options every maxErr rows fault p s = (Resolved u, p1, s1)"
  shows "fault = None \<and> processedRows p1 = processedRows p + length rows
       \<and> totalRows p1 = totalRows p"
proof -
  obtain r2 p2 c2 s2 where fa: "forAwait e options every maxErr rows fault p 1 s = (r2, p2, c2, s2)"
    by (cases "forAwait e options every maxErr rows fault p 1 s")
  with assms obtain u' where "r2 = Resolved u'" and "p1 = p2"
    by (cases r2) (auto simp: processFile_try_def split: sum.splits prod.splits)
  with forAwait_count [of e options every maxErr rows fault p 1 s u' p2 c2 s2] fa
  show ?thesis by simp
qed

lemma processFile_complete:
  assumes "processFile e options s = (Resolved p, s1)"
  shows "\<exists>rows. files (snd s) (filePath options) = Some rows
           \<and> totalRows p = length rows \<and> processedRows p = length rows"
proof -
  from assms obtain counted where c: "countRows e (snd s) (filePath options) = Resolved counted"
    by (cases "countRows e (snd s) (filePath options)") (auto simp: processFile_def)
  then obtain rows where f: "files (snd s) (filePath options) = Some rows"
    and n: "counted = length rows"
    by (auto simp: countRows_def split: option.splits)
  define every where "every = (case progressEvery options of None \<Rightarrow> DEFAULT_PROGRESS_EVERY | Some n \<Rightarrow> n)"
  define maxErr where "maxErr = (case maxErrors options of None \<Rightarrow> DEFAULT_MAX_ERRORS | Some n \<Rightarrow> n)"
  define p0 where "p0 = \<lparr> totalRows = counted, processedRows = 0, successCount = 0,
                           failedCount = 0, errors = [], lastError = None \<rparr>"
  define stream where "stream = csv_stream e (snd s) (filePath options)"
  obtain r1 s01 where em1: "emitProgress options every True p0 s = (r1, s01)"
    by (cases "emitProgress options every True p0 s")
  obtain r2 p2 s4 where body: "processFile_try e options every maxErr (fst stream) (snd stream)
          p0 s01 = (r2, p2, s4)"
    by (cases "processFile_try e options every maxErr (fst stream) (snd stream) p0 s01")
  have unf: "processFile e options s =
      (case r1 of Inl err \<Rightarrow> (Rejected err, s01)
       | Inr _ \<Rightarrow>
          (case r2 of
             Uncaught err \<Rightarrow> (Uncaught err, s4)
           | Resolved _ \<Rightarrow> (Resolved p2, s4)
           | Rejected err \<Rightarrow>
               (let q1 = p2\<lparr>lastError :=
                           (if instanceof_Error err then err_message err
                            else Some ''unknown error'')\<rparr>
                in case emitProgress options every True q1 s4 of
                     (Inl err2, s5) \<Rightarrow> (Rejected err2, s5)
                   | (Inr _, s5) \<Rightarrow> (Rejected err, s5))))"
    using c em1 body
    by (simp add: processFile_def Let_def every_def [symmetric] p0_def [symmetric]
        maxErr_def [symmetric] stream_def [symmetric] split: sum.splits completion.splits)
  from assms unf obtain u where r1: "r1 = Inr u" by (cases r1) auto
  have "\<exists>u'. r2 = Resolved u'" and p: "p = p2"
  proof -
    show "\<exists>u'. r2 = Resolved u'"
    proof (cases r2)
      case (Rejected err)
      with assms unf r1 show ?thesis
        by (cases "emitProgress options every True (p2\<lparr>lastError :=
                           (if instanceof_Error err then err_message err
                            else Some ''unknown error'')\<rparr>) s4")
           (auto simp: Let_def split: sum.splits)
    next
      case (Uncaught err)
      with assms unf r1 show ?thesis by simp
    qed simp
    with assms unf r1 show "p = p2" by auto
  qed
  then obtain u' where r2: "r2 = Resolved u'" by blast
  from processFile_try_count [OF body [unfolded r2]]
  have nofault: "snd stream = None" and cnt: "processedRows p2 = length (fst stream)"
    and tot: "totalRows p2 = counted"
    by (simp_all add: p0_def)
  from nofault f have "fst stream = rows"
    by (auto simp: stream_def csv_stream_def split: option.splits)
  with f n cnt tot p show ?thesis by simp
qed

lemma processCsvJob_try_outcome:
  assumes start: "in_progress jid fs s"
      and run: "processCsvJob_try e jid path s = (r, s1)"
  shows "job_id (fst s1) = jid \<and> files (snd s1) = fs \<and>
     (case r of
        Rejected err \<Rightarrow> stored_not_completed jid (snd s1)
      | Uncaught err \<Rightarrow> stored_not_completed jid (snd s1)
      | Resolved _ \<Rightarrow>
          (\<exists>rows. fs path = Some rows \<and> totalRows (fst s1) = length rows
                  \<and> processedRows (fst s1) = length rows)
          \<and> status (fst s1) = completed
          \<and> stored_job (snd s1) jid = Some (persisted (fst s1)))"
proof -
  let ?options = "\<lparr> jobId = jid, filePath = path, progressEvery = None, maxErrors = None,
               onProgress = Some (persistProgress e) \<rparr>"
  obtain r2 s2 where pf: "processFile e ?options s = (r2, s2)"
    by (cases "processFile e ?options s")
  have "in_progress jid fs s2 \<and> (\<forall>p. r2 = Resolved p \<longrightarrow> True)"
  proof (rule processFile_invariant [where P = "\<lambda>p. True" and Q = "in_progress jid fs" and e = e
        and options = ?options and s = s])
    show "processFile e ?options s = (r2, s2)" by (rule pf)
  next
    fix f p s'
    assume "onProgress ?options = Some f" "in_progress jid fs s'"
    then show "in_progress jid fs (snd (f p s'))" by (auto simp: persistProgress_in_progress)
  qed (use start in \<open>auto simp: handleRow_in_progress\<close>)
  then have ip2: "in_progress jid fs s2" by simp
  then have id2: "job_id (fst s2) = jid" and fl2: "files (snd s2) = fs"
    and nc2: "stored_not_completed jid (snd s2)"
    by (simp_all add: in_progress_def)
  show ?thesis
  proof (cases r2)
    case (Rejected err)
    with run pf have "r = Rejected err" "s1 = s2" by (simp_all add: processCsvJob_try_def)
    with id2 fl2 nc2 show ?thesis by simp
  next
    case (Uncaught err)
    with run pf have "r = Uncaught err" "s1 = s2" by (simp_all add: processCsvJob_try_def)
    with id2 fl2 nc2 show ?thesis by simp
  next
    case (Resolved result)
    from processFile_complete [OF pf [unfolded Resolved]] start
    obtain rows where rows: "fs path = Some rows" "totalRows result = length rows"
      "processedRows result = length rows"
      by (auto simp: in_progress_def)
    define job where "job = (fst s2)\<lparr>status := completed, completedAt := Some (now e)\<rparr>"
    define job' where "job' = job\<lparr> totalRows := totalRows result,
         processedRows := processedRows result, successCount := successCount result,
         failedCount := failedCount result, errors := errors result,
         lastError := lastError result \<rparr>"
    have j: "job_id job' = jid" "status job' = completed" "totalRows job' = length rows"
      "processedRows job' = length rows"
      using id2 rows by (simp_all add: job'_def job_def)
    obtain r4 v4 where sv: "job_save e job' (snd s2) = (r4, v4)"
      by (cases "job_save e job' (snd s2)")
    show ?thesis
    proof (cases r4)
      case (Inl err)
      with sv have sv': "job_save e job' (snd s2) = (Inl err, v4)" by simp
      then have pp: "persistProgress e result (job, snd s2) = (Inl err, job', v4)"
        by (simp add: persistProgress_def Let_def job'_def [symmetric])
      from job_save_failed [OF sv'] have v4: "v4 = (snd s2)\<lparr>ops := ops (snd s2) + 1\<rparr>" by simp
      from run pf Resolved pp have "r = Rejected err" "s1 = (job', v4)"
        by (simp_all add: processCsvJob_try_def Let_def job_def [symmetric])
      moreover have "stored_not_completed jid v4"
        using nc2 by (simp add: v4 stored_not_completed_def stored_job_def)
      moreover have "files v4 = fs" using fl2 by (simp add: v4)
      ultimately show ?thesis using j by simp
    next
      case r4: (Inr u)
      with sv have sv': "job_save e job' (snd s2) = (Inr u, v4)" by simp
      then have pp: "persistProgress e result (job, snd s2) =
          (Inr (), job', broadcast (job_id job') ''progress'' (toProgress job') v4)"
        by (simp add: persistProgress_def Let_def job'_def [symmetric])
      define v5 where "v5 = broadcastAndClose jid ''done'' (DonePayload jid completed)
          (broadcast (job_id job') ''progress'' (toProgress job') v4)"
      from run pf Resolved pp have rs: "r = Resolved ()" "s1 = (job', v5)"
        by (simp_all add: processCsvJob_try_def Let_def job_def [symmetric] v5_def)
      from stored_job_save [OF sv', of jid] j have "stored_job v4 jid = Some (persisted job')"
        by simp
      then have f5: "stored_job v5 jid = Some (persisted job')"
        by (simp add: v5_def stored_job_def broadcast_frame broadcastAndClose_frame)
      from job_save_ok [OF sv'] have "files v4 = files (snd s2)" by simp
      then have fl5: "files v5 = fs"
        using fl2 by (simp add: v5_def broadcast_frame broadcastAndClose_frame)
      from rs f5 fl5 j rows show ?thesis by simp
    qed
  qed
qed

lemma processCsvJob_catch_outcome:
  assumes id: "job_id (fst s) = jid"
      and run: "processCsvJob_catch e jid err s = (err2, s1)"
  shows "fst s1 = (fst s)\<lparr> status := failed, completedAt := Some (now e),
                          lastError := Some (case err_message err of
                                               None \<Rightarrow> ''job failed unexpectedly''
                                             | Some m \<Rightarrow> m) \<rparr>
     \<and> ops (snd s1) = ops (snd s) + 1 \<and> files (snd s1) = files (snd s)
     \<and> (case db_fault e (ops (snd s)) of
           Some x \<Rightarrow> err2 = x \<and> jobs (snd s1) = jobs (snd s)
         | None \<Rightarrow> err2 = err \<and> stored_job (snd s1) jid = Some (persisted (fst s1))
             \<and> saved (snd s1) = saved (snd s) @ [persisted (fst s1)]
             \<and> published (snd s1) = published (snd s) @
                  [(jid, ''progress'', toProgress (fst s1)),
                   (jid, ''done'', DonePayload jid failed)])"
proof -
  define job where "job = (fst s)\<lparr> status := failed, completedAt := Some (now e),
                          lastError := Some (case err_message err of
                                               None \<Rightarrow> ''job failed unexpectedly''
                                             | Some m \<Rightarrow> m) \<rparr>"
  have j: "job_id job = jid" using id by (simp add: job_def)
  obtain r v1 where sv: "job_save e job (snd s) = (r, v1)" by (cases "job_save e job (snd s)")
  show ?thesis
  proof (cases r)
    case (Inl x)
    with sv have sv': "job_save e job (snd s) = (Inl x, v1)" by simp
    with run have rs: "err2 = x" "s1 = (job, v1)"
      by (simp_all add: processCsvJob_catch_def Let_def job_def [symmetric])
    from job_save_failed [OF sv'] have "v1 = (snd s)\<lparr>ops := ops (snd s) + 1\<rparr>"
      and "db_fault e (ops (snd s)) = Some x" by simp_all
    with rs show ?thesis by (simp add: job_def)
  next
    case (Inr u)
    with sv have sv': "job_save e job (snd s) = (Inr u, v1)" by simp
    define v2 where "v2 = broadcastAndClose jid ''done'' (DonePayload jid failed)
                (broadcast jid ''progress'' (toProgress job) v1)"
    from sv' run have rs: "err2 = err" "s1 = (job, v2)"
      by (simp_all add: processCsvJob_catch_def Let_def job_def [symmetric] v2_def)
    from job_save_ok [OF sv'] have v1: "v1 = (snd s)\<lparr>ops := ops (snd s) + 1,
        jobs := upsert (persisted job) (jobs (snd s)),
        saved := saved (snd s) @ [persisted job]\<rparr>"
      and nf: "db_fault e (ops (snd s)) = None" by simp_all
    from stored_job_save [OF sv', of jid] j have "stored_job v1 jid = Some (persisted job)"
      by simp
    then have f2: "stored_job v2 jid = Some (persisted job)"
      by (simp add: v2_def stored_job_def broadcast_frame broadcastAndClose_frame)
    have "ops v2 = ops (snd s) + 1" "files v2 = files (snd s)"
      "saved v2 = saved (snd s) @ [persisted job]"
      "published v2 = published (snd s) @
                  [(jid, ''progress'', toProgress job), (jid, ''done'', DonePayload jid failed)]"
      by (simp_all add: v2_def v1 broadcast_frame broadcastAndClose_frame)
    with rs nf f2 show ?thesis by (simp add: job_def)
  qed
qed

lemma stored_job_id: "stored_job w jid = Some job \<Longrightarrow> job_id job = jid"
  by (auto simp: stored_job_def find_Some_iff)

lemma persistProgress_doc:
  "fst (snd (persistProgress e p s)) =
     (fst s)\<lparr> totalRows := totalRows p, processedRows := processedRows p,
       successCount := successCount p, failedCount := failedCount p,
       errors := errors p, lastError := lastError p \<rparr>"
  by (simp add: persistProgress_def Let_def split: prod.splits sum.splits)

lemma persistProgress_progress_of: "progress_of (fst (snd (persistProgress e p s))) = p"
  by (simp only: persistProgress_doc progress_of_simps(5))

lemma processCsvJob_try_doc:
  assumes init: "\<And>n. P \<lparr> totalRows = n, processedRows = 0, successCount = 0, failedCount = 0,
                          errors = [], lastError = None \<rparr>"
      and row: "\<And>(options :: JobDoc ProcessFileOptions) raw cur p w.
                  1 \<le> cur \<Longrightarrow> P p \<Longrightarrow> P (fst (handleRow e options DEFAULT_MAX_ERRORS raw cur p w))"
      and last: "\<And>p m. P p \<Longrightarrow> P (p\<lparr>lastError := m\<rparr>)"
      and start: "P (progress_of (fst s))"
      and run: "processCsvJob_try e jid path s = (r, s1)"
  shows "P (progress_of (fst s1))"
proof -
  let ?options = "\<lparr> jobId = jid, filePath = path, progressEvery = None, maxErrors = None,
               onProgress = Some (persistProgress e) \<rparr>"
  let ?Q = "\<lambda>s :: JobDoc \<times> world. P (progress_of (fst s))"
  obtain r2 s2 where pf: "processFile e ?options s = (r2, s2)"
    by (cases "processFile e ?options s")
  have inv: "?Q s2 \<and> (\<forall>p. r2 = Resolved p \<longrightarrow> P p)"
  proof (rule processFile_invariant [where P = P and Q = ?Q and e = e
        and options = ?options and s = s])
    show "processFile e ?options s = (r2, s2)" by (rule pf)
  next
    fix f p s'
    assume "onProgress ?options = Some f" "P p"
    then show "P (progress_of (fst (snd (f p s'))))"
      by (auto simp: persistProgress_progress_of)
  qed (use init row last start in auto)
  show ?thesis
  proof (cases r2)
    case (Rejected err)
    with run pf inv show ?thesis by (simp add: processCsvJob_try_def)
  next
    case (Uncaught err)
    with run pf inv show ?thesis by (simp add: processCsvJob_try_def)
  next
    case (Resolved result)
    with inv have Pr: "P result" by simp
    define job where "job = (fst s2)\<lparr>status := completed, completedAt := Some (now e)\<rparr>"
    obtain r4 s4 where pp: "persistProgress e result (job, snd s2) = (r4, s4)"
      by (cases "persistProgress e result (job, snd s2)")
    from persistProgress_progress_of [of e result "(job, snd s2)"] pp Pr
    have "P (progress_of (fst s4))" by simp
    with run pf Resolved pp show ?thesis
      by (cases r4) (auto simp: processCsvJob_try_def Let_def job_def [symmetric])
  qed
qed

text \<open>
  C2 (amended). A job that \<open>processCsvJob\<close> leaves stored as completed has
  \<open>processedRows = totalRows\<close>, both being the number of rows of the file, and the run
  returned normally. (A job that ends failed may have processed fewer rows than were
  counted.)
\<close>

theorem completed_job_accounts_for_every_row:
  assumes found: "Job_findById e w jid = Inr (Some job0)"
      and fresh: "status job0 \<noteq> completed"
      and run: "processCsvJob e jid path w = (r, w1)"
      and after: "stored_job w1 jid = Some j"
      and finished: "status j = completed"
  shows "processedRows j = totalRows j
       \<and> (\<exists>rows. files w path = Some rows \<and> totalRows j = length rows)
       \<and> r = Resolved ()"
proof -
  from found have st0: "stored_job w jid = Some job0" by (simp add: Job_findById_Inr)
  have id0: "job_id job0 = jid" using st0 by (rule stored_job_id)
  define job where "job = job0\<lparr> status := processing, startedAt := Some (now e),
                           completedAt := None, lastError := None \<rparr>"
  have jid: "job_id job = jid" "status job = processing" using id0 by (simp_all add: job_def)
  obtain r1 v1 where sv: "job_save e job w = (r1, v1)" by (cases "job_save e job w")
  show ?thesis
  proof (cases r1)
    case (Inl x)
    with sv have sv': "job_save e job w = (Inl x, v1)" by simp
    from job_save_failed [OF sv'] have "v1 = w\<lparr>ops := ops w + 1\<rparr>" by simp
    moreover from run found sv' have "w1 = v1"
      by (simp add: processCsvJob_def Let_def job_def [symmetric])
    ultimately have "stored_job w1 jid = Some job0" using st0 by (simp add: stored_job_def)
    with after finished fresh show ?thesis by simp
  next
    case (Inr u)
    with sv have sv': "job_save e job w = (Inr u, v1)" by simp
    define s0 where "s0 = (job, broadcast jid ''progress'' (toProgress job) v1)"
    from stored_job_save [OF sv', of jid] jid have "stored_job v1 jid = Some (persisted job)"
      by simp
    then have "stored_job (snd s0) jid = Some (persisted job)"
      by (simp add: s0_def stored_job_def broadcast_frame)
    moreover from job_save_ok [OF sv'] have "files (snd s0) = files w"
      by (simp add: s0_def broadcast_frame)
    ultimately have ip: "in_progress jid (files w) s0"
      using jid by (simp add: in_progress_def stored_not_completed_def s0_def persisted_simps)
    obtain r3 s3 where tr: "processCsvJob_try e jid path s0 = (r3, s3)"
      by (cases "processCsvJob_try e jid path s0")
    note out = processCsvJob_try_outcome [OF ip tr]
    show ?thesis
    proof (cases r3)
      case r3: (Resolved u')
      with run found sv' tr have rw: "r = Resolved ()" "w1 = safeDelete path (snd s3)"
        by (simp_all add: processCsvJob_def Let_def job_def [symmetric] s0_def [symmetric])
      from out r3 obtain rows where "files w path = Some rows" "totalRows (fst s3) = length rows"
        "processedRows (fst s3) = length rows"
        "stored_job (snd s3) jid = Some (persisted (fst s3))"
        by auto
      moreover from this(4) rw(2) after have "j = persisted (fst s3)"
        by (simp add: safeDelete_files stored_job_def)
      ultimately show ?thesis using rw(1) by (simp add: persisted_simps)
    next
      case r3: (Uncaught err)
      with run found sv' tr have rw: "w1 = snd s3"
        by (simp add: processCsvJob_def Let_def job_def [symmetric] s0_def [symmetric])
      from out r3 have "stored_not_completed jid w1" by (simp add: rw)
      with after finished show ?thesis by (simp add: stored_not_completed_def)
    next
      case r3: (Rejected err)
      obtain err2 s4 where ca: "processCsvJob_catch e jid err s3 = (err2, s4)"
        by (cases "processCsvJob_catch e jid err s3")
      from run found sv' tr r3 ca have rw: "w1 = safeDelete path (snd s4)"
        by (simp add: processCsvJob_def Let_def job_def [symmetric] s0_def [symmetric])
      from out r3 have id3: "job_id (fst s3) = jid" and nc3: "stored_not_completed jid (snd s3)"
        by simp_all
      note co = processCsvJob_catch_outcome [OF id3 ca]
      have "stored_not_completed jid (snd s4)"
      proof (cases "db_fault e (ops (snd s3))")
        case None
        with co have "stored_job (snd s4) jid = Some (persisted (fst s4))"
          "status (fst s4) = failed"
          by simp_all
        then show ?thesis by (simp add: stored_not_completed_def persisted_simps)
      next
        case (Some x)
        with co have "jobs (snd s4) = jobs (snd s3)" by simp
        with nc3 show ?thesis by (simp add: stored_not_completed_def stored_job_def)
      qed
      then have "stored_not_completed jid w1"
        by (simp add: rw safeDelete_files stored_not_completed_def stored_job_def)
      with after finished show ?thesis by (simp add: stored_not_completed_def)
    qed
  qed
qed

lemma run_completes:
  "outcome jid1 (processCsvJob env0 jid1 ''up/a.csv'' world_pending)
     = (Resolved (), Some job_after_success)"
  by code_simp

lemma run_fails:
  "outcome jid1 (processCsvJob env_save_rejected jid1 ''up/a.csv'' world_pending)
     = (Rejected write_refused, Some job_after_failure)"
  by code_simp

lemma outcome_iff: "outcome jid rw = (r, j) \<longleftrightarrow> fst rw = r \<and> stored_job (snd rw) jid = j"
  by (cases rw) (auto simp: outcome_def)

lemma found_pending:
  assumes "isValidObjectId e jid1" "lookup_fault e = None" "jobs w = [job_pending]"
  shows "Job_findById e w jid1 = Inr (Some job_pending)"
  using assms by (simp add: Job_findById_Inr stored_job_def job_pending_def)

theorem completed_job_accounts_for_every_row_witness:
  "Job_findById env0 world_pending jid1 = Inr (Some job_pending)
   \<and> status job_pending \<noteq> completed
   \<and> stored_job (snd (processCsvJob env0 jid1 ''up/a.csv'' world_pending)) jid1
        = Some job_after_success
   \<and> status job_after_success = completed
   \<and> processedRows job_after_success = totalRows job_after_success
   \<and> fst (processCsvJob env0 jid1 ''up/a.csv'' world_pending) = Resolved ()"
proof -
  have f: "Job_findById env0 world_pending jid1 = Inr (Some job_pending)"
    by (rule found_pending) (simp_all add: env0_def jid1_def world_pending_def)
  have p: "status job_pending \<noteq> completed" by (simp add: job_pending_def)
  have a: "stored_job (snd (processCsvJob env0 jid1 ''up/a.csv'' world_pending)) jid1
        = Some job_after_success"
    using run_completes by (simp add: outcome_iff)
  have c: "status job_after_success = completed" by (simp add: job_after_success_def)
  from completed_job_accounts_for_every_row [OF f p prod.collapse [symmetric] a c] f p a c
  show ?thesis by simp
qed

theorem failed_job_rows_counterexample:
  "fst (processCsvJob env_save_rejected jid1 ''up/a.csv'' world_pending) = Rejected write_refused
   \<and> stored_job (snd (processCsvJob env_save_rejected jid1 ''up/a.csv'' world_pending)) jid1
        = Some job_after_failure
   \<and> isTerminal (status job_after_failure)
   \<and> processedRows job_after_failure = 0
   \<and> totalRows job_after_failure = 2
   \<and> processedRows job_after_failure \<noteq> totalRows job_after_failure"
  using run_fails by (simp add: outcome_iff job_after_failure_def isTerminal_def)

lemma processCsvJob_try_job_id:
  assumes run: "processCsvJob_try e jid path s = (r, s1)"
  shows "job_id (fst s1) = job_id (fst s)"
proof -
  let ?options = "\<lparr> jobId = jid, filePath = path, progressEvery = None, maxErrors = None,
               onProgress = Some (persistProgress e) \<rparr>"
  let ?Q = "\<lambda>s' :: JobDoc \<times> world. job_id (fst s') = job_id (fst s)"
  obtain r2 s2 where pf: "processFile e ?options s = (r2, s2)"
    by (cases "processFile e ?options s")
  have "?Q s2 \<and> (\<forall>p. r2 = Resolved p \<longrightarrow> True)"
  proof (rule processFile_invariant [where P = "\<lambda>p. True" and Q = ?Q and e = e
        and options = ?options and s = s])
    show "processFile e ?options s = (r2, s2)" by (rule pf)
  next
    fix f p and s' :: "JobDoc \<times> world"
    assume "onProgress ?options = Some f" "job_id (fst s') = job_id (fst s)"
    then show "job_id (fst (snd (f p s'))) = job_id (fst s)" by (auto simp: persistProgress_doc)
  qed auto
  then have id2: "job_id (fst s2) = job_id (fst s)" by simp
  show ?thesis
  proof (cases r2)
    case (Rejected err)
    with run pf id2 show ?thesis by (simp add: processCsvJob_try_def)
  next
    case (Uncaught err)
    with run pf id2 show ?thesis by (simp add: processCsvJob_try_def)
  next
    case (Resolved result)
    define job where "job = (fst s2)\<lparr>status := completed, completedAt := Some (now e)\<rparr>"
    obtain r4 s4 where pp: "persistProgress e result (job, snd s2) = (r4, s4)"
      by (cases "persistProgress e result (job, snd s2)")
    from persistProgress_doc [of e result "(job, snd s2)"] pp id2
    have "job_id (fst s4) = job_id (fst s)" by (simp add: job_def)
    with run pf Resolved pp show ?thesis
      by (cases r4) (auto simp: processCsvJob_try_def Let_def job_def [symmetric])
  qed
qed

lemma try_throws:
  "fst (processCsvJob_try env_save_rejected jid1 ''up/a.csv''
          (entering_try env_save_rejected jid1 job_pending world_pending))
     = Rejected write_refused
   \<and> fst (snd (processCsvJob_try env_save_rejected jid1 ''up/a.csv''
          (entering_try env_save_rejected jid1 job_pending world_pending)))
     = job_when_thrown"
  by code_simp

text \<open>
  C6 (amended). When \<open>processCsvJob\<close> has found a job, its first save was accepted, the
  run then throws, and the database accepted the last write, then the error is the one the
  \<open>try\<close> block threw, and with \<open>d\<close> the hydrated document at that moment, set to failed
  with \<open>completedAt\<close> and with \<open>lastError\<close> the message of the error
  (\<open>job failed unexpectedly\<close> when it has none): the stored job is what is persisted of
  \<open>d\<close> (its status failed, \<open>completedAt\<close> set, \<open>lastError\<close> not stored), saved last; the
  events published since are a progress event with the snapshot of \<open>d\<close>, which carries
  \<open>lastError\<close>, and then the terminal event; the source file is gone. No error record is
  appended: the error list of \<open>d\<close> and of the stored job is the list the document had
  when the error was thrown, and has no record with row number 0.
\<close>

theorem fatal_error_marks_job_failed:
  assumes found: "Job_findById e w jid = Inr (Some job0)"
      and clean: "\<forall>er\<in>set (errors job0). rowNumber er \<noteq> 0"
      and began: "db_fault e (ops w) = None"
      and run: "processCsvJob e jid path w = (Rejected err, w1)"
      and flushed: "db_fault e (ops w1 - 1) = None"
  shows "\<exists>thrown d j.
           processCsvJob_try e jid path (entering_try e jid job0 w) = (Rejected err, thrown)
           \<and> d = (fst thrown)\<lparr> status := failed, completedAt := Some (now e),
                   lastError := Some (case err_message err of
                                        None \<Rightarrow> ''job failed unexpectedly'' | Some m \<Rightarrow> m) \<rparr>
           \<and> j = persisted d
           \<and> stored_job w1 jid = Some j
           \<and> status j = failed
           \<and> completedAt j = Some (now e)
           \<and> lastError j = None
           \<and> errors j = errors (fst thrown)
           \<and> (\<forall>er\<in>set (errors j). rowNumber er \<noteq> 0)
           \<and> saved w1 = saved (snd thrown) @ [j]
           \<and> published w1 = published (snd thrown) @
                  [(jid, ''progress'', toProgress d), (jid, ''done'', DonePayload jid failed)]
           \<and> files w1 path = None"
proof -
  let ?P = "\<lambda>p :: CsvProgress. \<forall>er\<in>set (errors p). rowNumber er \<noteq> 0"
  from found have st0: "stored_job w jid = Some job0" by (simp add: Job_findById_Inr)
  have id0: "job_id job0 = jid" using st0 by (rule stored_job_id)
  define job where "job = job0\<lparr> status := processing, startedAt := Some (now e),
                           completedAt := None, lastError := None \<rparr>"
  have jid: "job_id job = jid" using id0 by (simp add: job_def)
  obtain r1 v1 where sv: "job_save e job w = (r1, v1)" by (cases "job_save e job w")
  with began obtain u where sv': "job_save e job w = (Inr u, v1)"
    by (cases r1) (auto dest: job_save_failed)
  define s0 where "s0 = (job, broadcast jid ''progress'' (toProgress job) v1)"
  have s0: "entering_try e jid job0 w = s0"
    using sv' by (simp add: entering_try_def Let_def job_def [symmetric] s0_def)
  have P0: "?P (progress_of (fst s0))" using clean by (simp add: s0_def job_def progress_of_def)
  obtain r3 s3 where tr: "processCsvJob_try e jid path s0 = (r3, s3)"
    by (cases "processCsvJob_try e jid path s0")
  from run found sv' tr obtain err0 where r3: "r3 = Rejected err0"
    by (cases r3) (auto simp: processCsvJob_def Let_def job_def [symmetric] s0_def [symmetric])
  have P3: "?P (progress_of (fst s3))"
  proof (rule processCsvJob_try_doc [where P = ?P and e = e, OF _ _ _ P0 tr])
    fix options :: "JobDoc ProcessFileOptions" and raw cur p v
    assume "1 \<le> (cur :: nat)" "\<forall>er\<in>set (errors (p :: CsvProgress)). rowNumber er \<noteq> 0"
    then show "\<forall>er\<in>set (errors (fst (handleRow e options DEFAULT_MAX_ERRORS raw cur p v))).
        rowNumber er \<noteq> 0"
      using handleRow_counters(4) [OF prod.collapse [symmetric],
          where e = e and options = options and maxErr = DEFAULT_MAX_ERRORS and raw = raw
            and cur = cur and p = p and w = v]
      by auto
  qed auto
  have id3: "job_id (fst s3) = jid"
    using processCsvJob_try_job_id [OF tr] jid by (simp add: s0_def)
  obtain err2 s4 where ca: "processCsvJob_catch e jid err0 s3 = (err2, s4)"
    by (cases "processCsvJob_catch e jid err0 s3")
  from run found sv' tr r3 ca have rw: "err = err2" "w1 = safeDelete path (snd s4)"
    by (simp_all add: processCsvJob_def Let_def job_def [symmetric] s0_def [symmetric])
  note co = processCsvJob_catch_outcome [OF id3 ca]
  from co rw have "ops w1 = ops (snd s3) + 1" by (simp add: safeDelete_files)
  with flushed have nf: "db_fault e (ops (snd s3)) = None" by simp
  with co have e2: "err2 = err0"
    and f4: "stored_job (snd s4) jid = Some (persisted (fst s4))"
    and sv4: "saved (snd s4) = saved (snd s3) @ [persisted (fst s4)]"
    and pub4: "published (snd s4) = published (snd s3) @
                  [(jid, ''progress'', toProgress (fst s4)),
                   (jid, ''done'', DonePayload jid failed)]"
    and doc4: "fst s4 = (fst s3)\<lparr> status := failed, completedAt := Some (now e),
                          lastError := Some (case err_message err0 of
                                               None \<Rightarrow> ''job failed unexpectedly''
                                             | Some m \<Rightarrow> m) \<rparr>"
    by simp_all
  have t: "processCsvJob_try e jid path (entering_try e jid job0 w) = (Rejected err, s3)"
    using tr r3 rw e2 by (simp add: s0)
  have d: "fst s4 = (fst s3)\<lparr> status := failed, completedAt := Some (now e),
                   lastError := Some (case err_message err of
                                        None \<Rightarrow> ''job failed unexpectedly'' | Some m \<Rightarrow> m) \<rparr>"
    using doc4 rw e2 by simp
  have "stored_job w1 jid = Some (persisted (fst s4))"
    using f4 by (simp add: rw safeDelete_files stored_job_def)
  moreover have "status (persisted (fst s4)) = failed"
    "completedAt (persisted (fst s4)) = Some (now e)"
    "lastError (persisted (fst s4)) = None"
    "errors (persisted (fst s4)) = errors (fst s3)"
    using doc4 by (simp_all add: persisted_def)
  moreover have "\<forall>er\<in>set (errors (persisted (fst s4))). rowNumber er \<noteq> 0"
    using P3 doc4 by (simp add: progress_of_def persisted_def)
  moreover have "saved w1 = saved (snd s3) @ [persisted (fst s4)]"
    using sv4 by (simp add: rw safeDelete_files)
  moreover have "published w1 = published (snd s3) @
                  [(jid, ''progress'', toProgress (fst s4)),
                   (jid, ''done'', DonePayload jid failed)]"
    using pub4 by (simp add: rw safeDelete_files)
  moreover have "files w1 path = None" by (simp add: rw safeDelete_files)
  ultimately show ?thesis using t d by blast
qed

theorem fatal_error_marks_job_failed_witness:
  "Job_findById env_save_rejected world_pending jid1 = Inr (Some job_pending)
   \<and> fst (processCsvJob env_save_rejected jid1 ''up/a.csv'' world_pending)
        = Rejected write_refused
   \<and> stored_job (snd (processCsvJob env_save_rejected jid1 ''up/a.csv'' world_pending)) jid1
        = Some job_after_failure
   \<and> job_after_failure = persisted job_marked_failed
   \<and> status job_after_failure = failed
   \<and> completedAt job_after_failure = Some 1000
   \<and> errors job_after_failure = errors job_when_thrown
   \<and> last (saved (snd (processCsvJob env_save_rejected jid1 ''up/a.csv'' world_pending)))
        = job_after_failure
   \<and> last (published (snd (processCsvJob env_save_rejected jid1 ''up/a.csv'' world_pending)))
        = (jid1, ''done'', DonePayload jid1 failed)
   \<and> last (butlast
        (published (snd (processCsvJob env_save_rejected jid1 ''up/a.csv'' world_pending))))
        = (jid1, ''progress'', toProgress job_marked_failed)
   \<and> files (snd (processCsvJob env_save_rejected jid1 ''up/a.csv'' world_pending)) ''up/a.csv''
        = None"
proof -
  let ?run = "processCsvJob env_save_rejected jid1 ''up/a.csv'' world_pending"
  let ?body = "processCsvJob_try env_save_rejected jid1 ''up/a.csv''
          (entering_try env_save_rejected jid1 job_pending world_pending)"
  have f: "Job_findById env_save_rejected world_pending jid1 = Inr (Some job_pending)"
    by (rule found_pending) (simp_all add: env_save_rejected_def env0_def jid1_def world_pending_def)
  have c: "\<forall>er\<in>set (errors job_pending). rowNumber er \<noteq> 0"
    by (simp add: job_pending_def)
  have b: "db_fault env_save_rejected (ops world_pending) = None"
    by (simp add: env_save_rejected_def env0_def world_pending_def world_upload_def world0_def)
  have r1: "fst ?run = Rejected write_refused"
    using run_fails by (simp add: outcome_iff)
  then have r: "?run = (Rejected write_refused, snd ?run)"
    by (simp add: prod_eq_iff)
  have a: "stored_job (snd ?run) jid1 = Some job_after_failure"
    using run_fails by (simp add: outcome_iff)
  have o: "ops (snd ?run) = 3" by code_simp
  have fl: "db_fault env_save_rejected (ops (snd ?run) - 1) = None"
    unfolding o by (simp add: env_save_rejected_def env0_def)
  have n: "now env_save_rejected = 1000" "err_message write_refused = Some ''connection closed''"
    by (simp_all add: env_save_rejected_def env0_def write_refused_def)
  show ?thesis
    using fatal_error_marks_job_failed [OF f c b r fl]
    apply (elim exE conjE)
    subgoal premises p for thrown d j
    proof -
      from p(1) try_throws have th: "fst thrown = job_when_thrown" by simp
      from p(2) have dm: "d = job_marked_failed" by (simp only: th n job_marked_failed_def option.case)
      from p(4) a have ja: "j = job_after_failure" by simp
      have c4: "job_after_failure = persisted job_marked_failed"
        using p(3) by (simp only: ja dm)
      have c5: "status job_after_failure = failed" using p(5) by (simp only: ja)
      have c6: "completedAt job_after_failure = Some 1000" using p(6) by (simp only: ja n)
      have c7: "errors job_after_failure = errors job_when_thrown"
        using p(8) by (simp only: ja th)
      have c8: "last (saved (snd ?run)) = job_after_failure"
        using p(10) by (simp add: ja)
      have c9: "last (published (snd ?run)) = (jid1, ''done'', DonePayload jid1 failed)"
        using p(11) by simp
      have c10: "last (butlast (published (snd ?run)))
                   = (jid1, ''progress'', toProgress job_marked_failed)"
        using p(11) by (simp add: butlast_append dm)
      show ?thesis by (intro conjI; (fact f r1 a c4 c5 c6 c7 c8 c9 c10 p(12)))
    qed
    done
qed

theorem fatal_error_no_row_zero_record_counterexample:
  "fst (processCsvJob env_save_rejected jid1 ''up/a.csv'' world_pending) = Rejected write_refused
   \<and> stored_job (snd (processCsvJob env_save_rejected jid1 ''up/a.csv'' world_pending)) jid1
        = Some job_after_failure
   \<and> status job_after_failure = failed
   \<and> errors job_after_failure = []
   \<and> filter (\<lambda>er. rowNumber er = 0) (errors job_after_failure) = []"
  using run_fails by (simp add: outcome_iff job_after_failure_def)

text \<open>
  A read error of the file is not thrown to \<open>processCsvJob\<close>: the call never settles, the
  job stays in processing, no terminal event is published and the file is not deleted.
\<close>

lemma read_error_never_settles:
  "outcome jid1 (processCsvJob env_unreadable jid1 ''up/a.csv'' world_pending)
     = (Uncaught eio, Some job_left_processing)"
  by code_simp

lemma read_error_keeps_file:
  "files (snd (processCsvJob env_unreadable jid1 ''up/a.csv'' world_pending)) ''up/a.csv''
     = Some [row_ann, row_ann]
   \<and> map (\<lambda>ev. fst (snd ev))
       (published (snd (processCsvJob env_unreadable jid1 ''up/a.csv'' world_pending)))
     = [''progress'', ''progress'']"
  by code_simp

section \<open>The queue\<close>

lemma open_call_le: "length (open_call l) \<le> 1"
  by (induction l rule: open_call.induct) auto

lemma log_Invoked:
  "one_at_a_time l \<Longrightarrow> open_call l = [] \<Longrightarrow>
     one_at_a_time (l @ [Invoked j]) \<and> open_call (l @ [Invoked j]) = [j]"
  by (induction l rule: one_at_a_time.induct) auto

lemma log_Returned:
  "one_at_a_time l \<Longrightarrow> open_call l = [j] \<Longrightarrow>
     one_at_a_time (l @ [Returned j]) \<and> open_call (l @ [Returned j]) = []"
  by (induction l rule: one_at_a_time.induct) auto

lemma log_Caught:
  "one_at_a_time l \<Longrightarrow> open_call l = [j] \<Longrightarrow>
     one_at_a_time (l @ [Caught j]) \<and> open_call (l @ [Caught j]) = []"
  by (induction l rule: one_at_a_time.induct) auto

lemma invoked_append: "invoked (l @ l') = invoked l @ invoked l'"
  by (induction l rule: invoked.induct) auto

lemma enqueued_append: "enqueued (evs @ evs') = enqueued evs @ enqueued evs'"
  by (induction evs rule: enqueued.induct) auto

lemma drain_idle:
  assumes "one_at_a_time (worker_log q)" "open_call (worker_log q) = []" "cycles q = []"
    "immediates q = 0" "running q"
  shows "queue_inv (drain q)
       \<and> invoked (worker_log (drain q)) @ queue (drain q) = invoked (worker_log q) @ queue q
       \<and> started (drain q) = started q"
proof (cases "started q \<and> queue q \<noteq> []")
  case True
  then obtain j rest where qq: "queue q = j # rest" by (cases "queue q") auto
  from log_Invoked [OF assms(1,2), of j] True qq assms show ?thesis
    by (simp add: drain_def queue_inv_def invoked_append)
next
  case False
  with assms show ?thesis
    by (auto simp: drain_def queue_inv_def Let_def)
qed

lemma process_inv:
  assumes "queue_inv q"
  shows "queue_inv (process q)
       \<and> invoked (worker_log (process q)) @ queue (process q) = invoked (worker_log q) @ queue q
       \<and> started (process q) = started q"
proof (cases "\<not> started q \<or> running q")
  case True
  with assms show ?thesis by (simp add: process_def)
next
  case False
  then have "process q = drain (q\<lparr>running := True\<rparr>)" by (simp add: process_def)
  moreover from assms False
  have "queue_inv (drain (q\<lparr>running := True\<rparr>))
       \<and> invoked (worker_log (drain (q\<lparr>running := True\<rparr>))) @ queue (drain (q\<lparr>running := True\<rparr>))
          = invoked (worker_log (q\<lparr>running := True\<rparr>)) @ queue (q\<lparr>running := True\<rparr>)
       \<and> started (drain (q\<lparr>running := True\<rparr>)) = started (q\<lparr>running := True\<rparr>)"
    by (intro drain_idle) (auto simp: queue_inv_def)
  ultimately show ?thesis by simp
qed

lemma weak_inv_process:
  assumes "one_at_a_time (worker_log q)" "cycles q = open_call (worker_log q)"
    "running q = (cycles q \<noteq> [])" "immediates q = 0"
  shows "queue_inv (process q) \<or> (\<not> started q \<and> process q = q) \<or> (running q \<and> process q = q)"
  using assms
  by (cases "\<not> started q \<or> running q")
     (auto simp: process_def intro!: drain_idle [THEN conjunct1])

lemma singleton_index:
  "length xs \<le> 1 \<Longrightarrow> i < length xs \<Longrightarrow> \<exists>j. xs = [j] \<and> i = 0"
  by (cases xs) auto

lemma queue_step_inv:
  assumes "queue_inv q"
  shows "queue_inv (queue_step ev q)
       \<and> invoked (worker_log (queue_step ev q)) @ queue (queue_step ev q)
           = invoked (worker_log q) @ queue q @ enqueued [ev]"
proof (cases ev)
  case Start
  show ?thesis
  proof (cases "started q")
    case True
    with Start assms show ?thesis by (simp add: start_def)
  next
    case False
    have "queue_inv (drain (q\<lparr>started := True, running := True\<rparr>))
       \<and> invoked (worker_log (drain (q\<lparr>started := True, running := True\<rparr>)))
            @ queue (drain (q\<lparr>started := True, running := True\<rparr>))
          = invoked (worker_log (q\<lparr>started := True, running := True\<rparr>))
            @ queue (q\<lparr>started := True, running := True\<rparr>)
       \<and> started (drain (q\<lparr>started := True, running := True\<rparr>))
          = started (q\<lparr>started := True, running := True\<rparr>)"
      if "\<not> running q"
      using assms that by (intro drain_idle) (auto simp: queue_inv_def)
    moreover have "queue_inv (q\<lparr>started := True\<rparr>)" if "running q"
      using assms that by (auto simp: queue_inv_def)
    ultimately show ?thesis using Start False
      by (cases "running q") (auto simp: start_def process_def)
  qed
next
  case Stop
  with assms show ?thesis by (auto simp: stop_def queue_inv_def)
next
  case (Enqueue job)
  show ?thesis
  proof (cases "started q \<and> \<not> running q")
    case True
    with assms have idle: "cycles q = []" "queue q = []" by (auto simp: queue_inv_def)
    let ?q1 = "q\<lparr>queue := queue q @ [job], running := True\<rparr>"
    have "queue_inv (drain ?q1)
       \<and> invoked (worker_log (drain ?q1)) @ queue (drain ?q1)
          = invoked (worker_log ?q1) @ queue ?q1
       \<and> started (drain ?q1) = started ?q1"
      using assms True idle by (intro drain_idle) (auto simp: queue_inv_def)
    with Enqueue True show ?thesis
      by (simp add: enqueue_def process_def Let_def)
  next
    case False
    with Enqueue assms show ?thesis
      by (auto simp: enqueue_def process_def Let_def queue_inv_def)
  qed
next
  case (WorkerReturns i)
  show ?thesis
  proof (cases "i < length (cycles q)")
    case False
    with WorkerReturns assms show ?thesis by (simp add: settle_def)
  next
    case True
    moreover from assms have "length (cycles q) \<le> 1"
      using open_call_le [of "worker_log q"] by (simp add: queue_inv_def)
    ultimately obtain j where c: "cycles q = [j]" "i = 0"
      using singleton_index by blast
    let ?q1 = "q\<lparr>cycles := [], worker_log := worker_log q @ [Returned j]\<rparr>"
    from assms c have oc: "open_call (worker_log q) = [j]" "one_at_a_time (worker_log q)"
      by (simp_all add: queue_inv_def)
    have "queue_inv (drain ?q1)
       \<and> invoked (worker_log (drain ?q1)) @ queue (drain ?q1)
          = invoked (worker_log ?q1) @ queue ?q1
       \<and> started (drain ?q1) = started ?q1"
      using assms c log_Returned [OF oc(2,1)]
      by (intro drain_idle) (auto simp: queue_inv_def)
    with WorkerReturns c show ?thesis
      by (simp add: settle_def invoked_append)
  qed
next
  case (WorkerThrows i)
  show ?thesis
  proof (cases "i < length (cycles q)")
    case False
    with WorkerThrows assms show ?thesis by (simp add: settle_def)
  next
    case True
    moreover from assms have "length (cycles q) \<le> 1"
      using open_call_le [of "worker_log q"] by (simp add: queue_inv_def)
    ultimately obtain j where c: "cycles q = [j]" "i = 0"
      using singleton_index by blast
    let ?q1 = "q\<lparr>cycles := [], worker_log := worker_log q @ [Caught j]\<rparr>"
    from assms c have oc: "open_call (worker_log q) = [j]" "one_at_a_time (worker_log q)"
      by (simp_all add: queue_inv_def)
    have "queue_inv (drain ?q1)
       \<and> invoked (worker_log (drain ?q1)) @ queue (drain ?q1)
          = invoked (worker_log ?q1) @ queue ?q1
       \<and> started (drain ?q1) = started ?q1"
      using assms c log_Caught [OF oc(2,1)]
      by (intro drain_idle) (auto simp: queue_inv_def)
    with WorkerThrows c show ?thesis
      by (simp add: settle_def invoked_append)
  qed
next
  case Immediate
  with assms show ?thesis by (simp add: run_immediate_def queue_inv_def)
qed

lemma queue_run_inv:
  "queue_inv q \<Longrightarrow>
     queue_inv (queue_run evs q)
     \<and> invoked (worker_log (queue_run evs q)) @ queue (queue_run evs q)
         = invoked (worker_log q) @ queue q @ enqueued evs"
proof (induction evs arbitrary: q)
  case Nil
  then show ?case by (simp add: queue_run_def)
next
  case (Cons ev evs)
  from queue_step_inv [OF Cons.prems, of ev]
  have i: "queue_inv (queue_step ev q)"
    and f: "invoked (worker_log (queue_step ev q)) @ queue (queue_step ev q)
           = invoked (worker_log q) @ queue q @ enqueued [ev]"
    by simp_all
  from Cons.IH [OF i] f show ?case
    using enqueued_append [of "[ev]" evs] by (simp add: queue_run_def)
qed

lemma new_queue_inv: "queue_inv new_queue"
  by (simp add: queue_inv_def new_queue_def)

lemma processCsvJob_settled_terminal:
  assumes found: "Job_findById e w jid = Inr (Some job0)"
      and run: "processCsvJob e jid path w = (r, w1)"
      and settled: "settles r"
      and accepted: "db_fault e (ops w1 - 1) = None"
  shows "\<exists>j. stored_job w1 jid = Some j \<and> isTerminal (status j)"
proof -
  from found have st0: "stored_job w jid = Some job0" by (simp add: Job_findById_Inr)
  have id0: "job_id job0 = jid" using st0 by (rule stored_job_id)
  define job where "job = job0\<lparr> status := processing, startedAt := Some (now e),
                           completedAt := None, lastError := None \<rparr>"
  have jid: "job_id job = jid" "status job = processing" using id0 by (simp_all add: job_def)
  obtain r1 v1 where sv: "job_save e job w = (r1, v1)" by (cases "job_save e job w")
  show ?thesis
  proof (cases r1)
    case (Inl x)
    with sv have sv': "job_save e job w = (Inl x, v1)" by simp
    from job_save_failed [OF sv'] have "v1 = w\<lparr>ops := ops w + 1\<rparr>" "db_fault e (ops w) = Some x"
      by simp_all
    moreover from run found sv' have "w1 = v1"
      by (simp add: processCsvJob_def Let_def job_def [symmetric])
    ultimately show ?thesis using accepted by simp
  next
    case (Inr u)
    with sv have sv': "job_save e job w = (Inr u, v1)" by simp
    define s0 where "s0 = (job, broadcast jid ''progress'' (toProgress job) v1)"
    from stored_job_save [OF sv', of jid] jid have "stored_job v1 jid = Some (persisted job)"
      by simp
    then have "stored_job (snd s0) jid = Some (persisted job)"
      by (simp add: s0_def stored_job_def broadcast_frame)
    then have ip: "in_progress jid (files (snd s0)) s0"
      using jid by (simp add: in_progress_def stored_not_completed_def s0_def persisted_simps)
    obtain r3 s3 where tr: "processCsvJob_try e jid path s0 = (r3, s3)"
      by (cases "processCsvJob_try e jid path s0")
    note out = processCsvJob_try_outcome [OF ip tr]
    show ?thesis
    proof (cases r3)
      case r3: (Resolved u')
      with run found sv' tr have rw: "w1 = safeDelete path (snd s3)"
        by (simp_all add: processCsvJob_def Let_def job_def [symmetric] s0_def [symmetric])
      from out r3 have "stored_job (snd s3) jid = Some (persisted (fst s3))"
        "status (fst s3) = completed"
        by auto
      then show ?thesis
        by (simp add: rw safeDelete_files stored_job_def isTerminal_def persisted_simps)
    next
      case r3: (Uncaught err)
      with run found sv' tr have "r = Uncaught err"
        by (simp add: processCsvJob_def Let_def job_def [symmetric] s0_def [symmetric])
      with settled show ?thesis by (simp add: settles_def)
    next
      case r3: (Rejected err)
      obtain err2 s4 where ca: "processCsvJob_catch e jid err s3 = (err2, s4)"
        by (cases "processCsvJob_catch e jid err s3")
      from run found sv' tr r3 ca have rw: "w1 = safeDelete path (snd s4)"
        by (simp add: processCsvJob_def Let_def job_def [symmetric] s0_def [symmetric])
      from out have id3: "job_id (fst s3) = jid" by simp
      note co = processCsvJob_catch_outcome [OF id3 ca]
      from co rw have "ops w1 = ops (snd s3) + 1" by (simp add: safeDelete_files)
      with accepted have "db_fault e (ops (snd s3)) = None" by simp
      with co have "stored_job (snd s4) jid = Some (persisted (fst s4))"
        "status (fst s4) = failed"
        by simp_all
      then show ?thesis
        by (simp add: rw safeDelete_files stored_job_def isTerminal_def persisted_simps)
    qed
  qed
qed

text \<open>
  C4 (amended). After any sequence of events on a new queue: at most one call of
  \<open>process\<close> is suspended in its loop, the worker log has one call at a time (each call
  is followed by its return or its caught error before the next call), the jobs the worker
  was called for followed by the jobs still queued are the jobs enqueued, in enqueue
  order, and a started queue with no running call is empty. When a call settles, by
  returning or by throwing, the loop goes on with the next job. When the importer's call
  for a stored job settles and the database accepted its last write, the job is terminal.
\<close>

theorem queue_runs_one_job_at_a_time:
  fixes evs :: "queue_event list"
  defines "q \<equiv> queue_run evs new_queue"
  shows "length (cycles q) \<le> 1
       \<and> one_at_a_time (worker_log q)
       \<and> invoked (worker_log q) @ queue q = enqueued evs
       \<and> immediates q = 0
       \<and> (started q \<and> cycles q = [] \<longrightarrow> queue q = [])
       \<and> (started q \<and> cycles q = [a] \<and> queue q = b # rest \<longrightarrow>
            worker_log (queue_step (WorkerThrows 0) q) = worker_log q @ [Caught a, Invoked b]
            \<and> worker_log (queue_step (WorkerReturns 0) q) = worker_log q @ [Returned a, Invoked b])
       \<and> (Job_findById e w (task_jobId a) = Inr (Some job0)
            \<and> worker e a w = (r, w1) \<and> settles r \<and> db_fault e (ops w1 - 1) = None \<longrightarrow>
            (\<exists>j. stored_job w1 (task_jobId a) = Some j \<and> isTerminal (status j)))"
proof -
  from queue_run_inv [OF new_queue_inv, of evs]
  have inv: "queue_inv q" and fifo: "invoked (worker_log q) @ queue q = enqueued evs"
    by (simp_all add: q_def new_queue_def)
  from inv have "length (cycles q) \<le> 1"
    using open_call_le [of "worker_log q"] by (simp add: queue_inv_def)
  moreover from inv have "one_at_a_time (worker_log q)" "immediates q = 0"
    "started q \<and> cycles q = [] \<longrightarrow> queue q = []"
    by (auto simp: queue_inv_def split: if_splits)
  moreover have "started q \<and> cycles q = [a] \<and> queue q = b # rest \<longrightarrow>
            worker_log (queue_step (WorkerThrows 0) q) = worker_log q @ [Caught a, Invoked b]
            \<and> worker_log (queue_step (WorkerReturns 0) q) = worker_log q @ [Returned a, Invoked b]"
    by (simp add: settle_def drain_def)
  moreover have "Job_findById e w (task_jobId a) = Inr (Some job0)
            \<and> worker e a w = (r, w1) \<and> settles r \<and> db_fault e (ops w1 - 1) = None \<longrightarrow>
            (\<exists>j. stored_job w1 (task_jobId a) = Some j \<and> isTerminal (status j))"
    using processCsvJob_settled_terminal [of e w "task_jobId a" job0 "task_filePath a" r w1]
    by (simp add: worker_def)
  ultimately show ?thesis using fifo by simp
qed

lemma three_jobs_in_order: "worker_log (queue_run [Start, Enqueue task_A, Enqueue task_B, Enqueue task_C,
       WorkerThrows 0, WorkerReturns 0, WorkerReturns 0] new_queue)
     = [Invoked task_A, Caught task_A, Invoked task_B, Returned task_B,
        Invoked task_C, Returned task_C]"
  by code_simp

theorem queue_runs_one_job_at_a_time_witness:
  "started (queue_run [Start, Enqueue task_A, Enqueue task_B, Enqueue task_C] new_queue)
   \<and> cycles (queue_run [Start, Enqueue task_A, Enqueue task_B, Enqueue task_C] new_queue)
        = [task_A]
   \<and> queue (queue_run [Start, Enqueue task_A, Enqueue task_B, Enqueue task_C] new_queue)
        = [task_B, task_C]
   \<and> worker_log (queue_step (WorkerThrows 0)
         (queue_run [Start, Enqueue task_A, Enqueue task_B, Enqueue task_C] new_queue))
        = [Invoked task_A, Caught task_A, Invoked task_B]
   \<and> one_at_a_time [Invoked task_A, Caught task_A, Invoked task_B, Returned task_B,
        Invoked task_C, Returned task_C]
   \<and> Job_findById env0 world_pending (task_jobId task_A) = Inr (Some job_pending)
   \<and> settles (fst (worker env0 task_A world_pending))
   \<and> db_fault env0 (ops (snd (worker env0 task_A world_pending)) - 1) = None
   \<and> stored_job (snd (worker env0 task_A world_pending)) (task_jobId task_A)
        = Some job_after_success
   \<and> isTerminal (status job_after_success)"
proof -
  let ?q = "queue_run [Start, Enqueue task_A, Enqueue task_B, Enqueue task_C] new_queue"
  let ?run = "worker env0 task_A world_pending"
  have q: "started ?q" "cycles ?q = [task_A]" "queue ?q = [task_B, task_C]"
      "worker_log ?q = [Invoked task_A]"
    by code_simp+
  have f: "Job_findById env0 world_pending (task_jobId task_A) = Inr (Some job_pending)"
    unfolding task_A_def QueueJob.simps
    by (rule found_pending) (simp_all add: env0_def jid1_def world_pending_def)
  have a: "db_fault env0 (ops (snd ?run) - 1) = None"
    by (simp add: env0_def)
  have s: "stored_job (snd ?run) (task_jobId task_A) = Some job_after_success"
    using run_completes by (simp add: outcome_iff worker_def task_A_def)
  have t: "settles (fst ?run)"
    using run_completes by (simp add: outcome_iff worker_def task_A_def settles_def)
  from queue_runs_one_job_at_a_time [of "[Start, Enqueue task_A, Enqueue task_B, Enqueue task_C]"
      task_A task_B "[task_C]" env0 world_pending job_pending "fst ?run" "snd ?run"] q f a s t
  have "worker_log (queue_step (WorkerThrows 0) ?q)
        = [Invoked task_A, Caught task_A, Invoked task_B]"
    and "isTerminal (status job_after_success)"
    by simp_all
  moreover from queue_runs_one_job_at_a_time [of "[Start, Enqueue task_A, Enqueue task_B,
      Enqueue task_C, WorkerThrows 0, WorkerReturns 0, WorkerReturns 0]"]
  have "one_at_a_time [Invoked task_A, Caught task_A, Invoked task_B, Returned task_B,
        Invoked task_C, Returned task_C]"
    by (simp add: three_jobs_in_order)
  ultimately show ?thesis using q f a s t by simp
qed

theorem job_not_terminal_counterexample:
  "worker_log (fst (settle_worker env_db_down
       (queue_run [Start, Enqueue task_A, Enqueue task_B] new_queue, world_pending)))
     = [Invoked task_A, Caught task_A, Invoked task_B]
   \<and> map_option status (stored_job (snd (settle_worker env_db_down
       (queue_run [Start, Enqueue task_A, Enqueue task_B] new_queue, world_pending))) jid1)
     = Some pending
   \<and> \<not> isTerminal pending"
  by code_simp

end
